theory Spec2Isabelle
  imports Main "HOL-Library.Sublist"
begin

section \<open>Exceptions\<close>

text \<open>
  The exceptions the program raises or lets through. \<open>ConnIdleTimeout\<close> is the class
  declared in \<^verbatim>\<open>client.py\<close>; \<open>InvalidStateError\<close> is what
  \<^verbatim>\<open>asyncio.Future.set_result\<close> raises on a future that is already done;
  \<open>KeyError\<close> is what \<^verbatim>\<open>dict.pop\<close> (without default) and \<^verbatim>\<open>dict[k]\<close>
  raise on a missing key; \<open>TunnelError n\<close> stands for any other subclass of
  \<^verbatim>\<open>Exception\<close> coming out of the websockets library (handshake failure, closed
  connection, transport error), \<open>n\<close> telling them apart;
  \<open>FileNotFoundError\<close> is what \<^verbatim>\<open>open\<close> and the loading of a certificate
  raise on a missing file, \<open>OSError n\<close> any other failure of the operating system
  on a file, \<open>SSLError\<close> what the loading of a certificate raises on a file that is
  not a certificate, \<open>UnicodeDecodeError\<close> what reading a text file raises on bytes
  that are not text in the encoding of the file, and \<open>ValueError\<close> what
  \<^verbatim>\<open>urllib.parse.urlsplit\<close> raises on a malformed network location.
\<close>

datatype exn =
    ConnIdleTimeout | InvalidStateError | KeyError | TunnelError nat
  | FileNotFoundError | OSError nat | SSLError | UnicodeDecodeError | ValueError

section \<open>Watchdog\<close>

text \<open>
  \<^verbatim>\<open>
  class Watchdog:
      def __init__(self, timeout, exc):
          self.timeout = timeout
          self.cnt = 0
          self.exc = exc
      def reset(self):
          self.cnt = 0
      async def start(self):
          while True:
              await asyncio.sleep(1)
              self.cnt += 1
              if self.cnt == self.timeout:
                  raise self.exc
  \<close>
  Python integers are unbounded, so both fields are \<open>int\<close>.
\<close>

record Watchdog =
  timeout :: int
  cnt :: int
  exc :: exn

definition Watchdog_init :: "int \<Rightarrow> exn \<Rightarrow> Watchdog" where
  "Watchdog_init t e = \<lparr>timeout = t, cnt = 0, exc = e\<rparr>"

definition reset :: "Watchdog \<Rightarrow> Watchdog" where
  "reset w = w\<lparr>cnt := 0\<rparr>"

text \<open>
  One iteration of the loop of \<^verbatim>\<open>start\<close>, run when \<^verbatim>\<open>sleep(1)\<close> returns:
  the counter is incremented and compared with the threshold. The result carries the
  watchdog as the iteration leaves it and the exception, if the iteration raised.
\<close>

definition start_tick :: "Watchdog \<Rightarrow> Watchdog \<times> exn option" where
  "start_tick w =
     (let w' = w\<lparr>cnt := cnt w + 1\<rparr>
      in if cnt w' = timeout w' then (w', Some (exc w')) else (w', None))"

text \<open>
  The activity \<^verbatim>\<open>start\<close> against a schedule: \<open>Tick\<close> is one return of
  \<^verbatim>\<open>sleep(1)\<close>, \<open>Reset\<close> is a call of \<^verbatim>\<open>reset\<close> by another activity
  while the watchdog sleeps. \<open>Inl e\<close>: the activity has completed by raising \<open>e\<close>
  (the rest of the schedule finds no activity to run). \<open>Inr w\<close>: it is still
  sleeping, with state \<open>w\<close>.
\<close>

datatype wd_event = Tick | Reset

fun start :: "Watchdog \<Rightarrow> wd_event list \<Rightarrow> exn + Watchdog" where
  "start w [] = Inr w"
| "start w (Reset # evs) = start (reset w) evs"
| "start w (Tick # evs) =
     (case start_tick w of
        (w', Some e) \<Rightarrow> Inl e
      | (w', None) \<Rightarrow> start w' evs)"

text \<open>The number of ticks since the last \<^verbatim>\<open>reset\<close> of a schedule (or since its start).\<close>

definition idle_ticks :: "wd_event list \<Rightarrow> nat" where
  "idle_ticks evs = length (takeWhile (\<lambda>e. e = Tick) (rev evs))"

section \<open>Session (class BaseServer)\<close>

text \<open>
  The program runs on one asyncio event loop: coroutines run one at a time and give
  up control only at an \<^verbatim>\<open>await\<close>. A Session is therefore modelled as a state
  machine whose steps are the stretches of code between two suspension points, and
  whose events are the calls of the Listener (\<^verbatim>\<open>data_received\<close>,
  \<^verbatim>\<open>abort\<close>) and the resumptions the event loop makes, with the outcome the
  outside world gave them (the handshake succeeded or failed, a send completed or
  raised, a tunnel message arrived, a second passed).

  A client identity is a peer address; a buffer is a byte string.
\<close>

type_synonym client = "string \<times> nat"
type_synonym data = string

text \<open>
  The shutdown signal is an \<^verbatim>\<open>asyncio.Future\<close>: pending, or done with a result.
\<close>

datatype future = Pending | Done bool

text \<open>
  An \<^verbatim>\<open>asyncio.Task\<close> of the Session: created and not yet run; suspended at one of
  the \<^verbatim>\<open>await\<close>s of its coroutine; done by an exception; asked to cancel by
  \<^verbatim>\<open>Task.cancel()\<close>, which only arranges for \<^verbatim>\<open>CancelledError\<close> to be thrown
  into the coroutine when the event loop next runs it; and done by cancellation, once
  that has happened. None of the three coroutines returns normally: each is
  \<^verbatim>\<open>while True\<close>.
\<close>

datatype wait_point = QueGet | WsSend data | WsRecv | Sleep

datatype task = Created | Waiting wait_point | Raised exn | CancelRequested | Cancelled

datatype task_name = WatchdogTask | SenderTask | ReceiverTask

text \<open>
  Where the coroutine \<^verbatim>\<open>new_client\<close> stands: scheduled by the constructor and
  not yet run; inside \<^verbatim>\<open>websockets.connect\<close> (the handshake); inside
  \<^verbatim>\<open>asyncio.wait\<close> (the race); leaving the \<^verbatim>\<open>async with\<close> block, which
  closes the connection, with the exception that is on its way out, if any; finished.
\<close>

datatype phase = Scheduled | Connecting | Racing | Closing "exn option" | Ended

datatype conn = NoConn | Open | Closed

datatype log_entry = Info exn | Error exn

text \<open>
  What a step does to the outside: a call of the capability \<^verbatim>\<open>f_conn_lost\<close>, a call
  of \<^verbatim>\<open>f_write_to_transport\<close>, or an exception that leaves the called method.
\<close>

datatype action = ConnLost client | WriteToTransport data client | Raises exn

datatype tls_version = TLSv1_2

record ssl_context =
  cafile :: "string option"
  minimum_version :: tls_version
  cert_chain :: "string option"

text \<open>
  The fields of the object (\<open>client\<close>, \<open>shutdown\<close>, \<open>que\<close>), the arguments and
  locals of its coroutine \<^verbatim>\<open>new_client\<close> (\<open>uri\<close>, \<open>ssl_param\<close>,
  \<open>idle_timeout\<close>, \<open>ws\<close>, \<open>watchdog\<close>, \<open>tasks\<close> and the state of each task),
  and what has been observed of it: the messages \<^verbatim>\<open>ws.send\<close> has completed, in
  order, and the log.
\<close>

record BaseServer =
  client :: client
  shutdown :: future
  que :: "data list"
  uri :: string
  ssl_param :: "ssl_context option"
  idle_timeout :: int
  phase :: phase
  ws :: conn
  watchdog :: "Watchdog option"
  tasks :: "task_name list"
  watchdog_task :: "task option"
  sender_task :: "task option"
  receiver_task :: "task option"
  ws_sent :: "data list"
  logged :: "log_entry list"

text \<open>Python's truth value of an optional string argument (\<^verbatim>\<open>None\<close> or a string).\<close>

fun truthy :: "string option \<Rightarrow> bool" where
  "truthy None = False"
| "truthy (Some s) = (s \<noteq> [])"

text \<open>
  The constructor makes two calls that read files, and either may raise:
  \<^verbatim>\<open>ssl.create_default_context(cafile = certfile)\<close> loads the bundle
  \<^verbatim>\<open>certfile\<close>, or the default certificates of the system when
  \<^verbatim>\<open>certfile\<close> is \<^verbatim>\<open>None\<close> or empty, and
  \<^verbatim>\<open>load_cert_chain(client_cert)\<close> loads the client's certificate and key.
  What they find is the state of the files when the constructor runs: for each
  argument, \<open>None\<close> when the call returns, or the exception it raises.
\<close>

record ssl_env =
  create_default_context :: "string option \<Rightarrow> exn option"
  load_cert_chain :: "string option \<Rightarrow> exn option"

text \<open>
  \<^verbatim>\<open>
  def __init__(self, client, f_write_to_transport, f_conn_lost, uri, certfile, client_cert, idle_timeout):
      self.client = client
      self.shutdown = asyncio.get_running_loop().create_future()
      self.que = asyncio.Queue()
      if uri.startswith('wss://'):
          ssl_context = ssl.create_default_context(cafile = certfile)
          ssl_context.minimum_version = ssl.TLSVersion.TLSv1_2
          if client_cert:
              ssl_context.load_cert_chain(client_cert)
          ssl_param = {'ssl': ssl_context}
      else:
          ssl_param = dict()
      asyncio.create_task(self.new_client(uri, ssl_param, f_write_to_transport, f_conn_lost, idle_timeout))
  \<close>
  The two capabilities are not stored: the calls the Session makes of them are the
  actions its steps return. The TLS context is kept as the data it was built from. When
  one of the two calls raises, the exception leaves the constructor: there is no
  object and \<^verbatim>\<open>new_client\<close> has not been scheduled (\<open>Inl\<close>). Otherwise the
  constructor returns the object (\<open>Inr\<close>) with \<^verbatim>\<open>new_client\<close> scheduled, which
  is the phase \<open>Scheduled\<close>. The constructor awaits nothing.
\<close>

definition BaseServer_init ::
  "ssl_env \<Rightarrow> client \<Rightarrow> string \<Rightarrow> string option \<Rightarrow> string option \<Rightarrow> int
     \<Rightarrow> exn + BaseServer" where
  "BaseServer_init env c u certfile client_cert t =
     (case (if take 6 u = ''wss://''
            then (case create_default_context env certfile of
                    Some e \<Rightarrow> Inl e
                  | None \<Rightarrow>
                      (if truthy client_cert
                       then (case load_cert_chain env client_cert of
                               Some e \<Rightarrow> Inl e
                             | None \<Rightarrow>
                                 Inr (Some \<lparr>cafile = certfile, minimum_version = TLSv1_2,
                                            cert_chain = client_cert\<rparr>))
                       else Inr (Some \<lparr>cafile = certfile, minimum_version = TLSv1_2,
                                       cert_chain = None\<rparr>)))
            else Inr None) of
        Inl e \<Rightarrow> Inl e
      | Inr sp \<Rightarrow>
          Inr \<lparr>client = c, shutdown = Pending, que = [],
               uri = u, ssl_param = sp, idle_timeout = t,
               phase = Scheduled, ws = NoConn, watchdog = None, tasks = [],
               watchdog_task = None, sender_task = None, receiver_task = None,
               ws_sent = [], logged = []\<rparr>)"


definition no_file_exists :: ssl_env where
  "no_file_exists =
     \<lparr>create_default_context = (\<lambda>certfile. if truthy certfile then Some FileNotFoundError else None),
      load_cert_chain = (\<lambda>client_cert. Some FileNotFoundError)\<rparr>"

text \<open>
  \<^verbatim>\<open>
  def data_received(self, data):
      self.que.put_nowait(data)
  \<close>
  The queue is unbounded, so \<^verbatim>\<open>put_nowait\<close> never raises.
\<close>

definition data_received :: "data \<Rightarrow> BaseServer \<Rightarrow> BaseServer" where
  "data_received d s = s\<lparr>que := que s @ [d]\<rparr>"

text \<open>
  \<^verbatim>\<open>
  def abort(self):
      self.shutdown.set_result(True)
  \<close>
  \<^verbatim>\<open>Future.set_result\<close> raises \<^verbatim>\<open>InvalidStateError\<close> when the future is
  already done.
\<close>

definition abort :: "BaseServer \<Rightarrow> exn + BaseServer" where
  "abort s =
     (case shutdown s of
        Pending \<Rightarrow> Inr (s\<lparr>shutdown := Done True\<rparr>)
      | Done r \<Rightarrow> Inl InvalidStateError)"

subsection \<open>Tasks\<close>

fun get_task :: "BaseServer \<Rightarrow> task_name \<Rightarrow> task option" where
  "get_task s WatchdogTask = watchdog_task s"
| "get_task s SenderTask = sender_task s"
| "get_task s ReceiverTask = receiver_task s"

fun set_task :: "task_name \<Rightarrow> task \<Rightarrow> BaseServer \<Rightarrow> BaseServer" where
  "set_task WatchdogTask t s = s\<lparr>watchdog_task := Some t\<rparr>"
| "set_task SenderTask t s = s\<lparr>sender_task := Some t\<rparr>"
| "set_task ReceiverTask t s = s\<lparr>receiver_task := Some t\<rparr>"

text \<open>\<^verbatim>\<open>Task.done()\<close>: the task has raised or has been cancelled.\<close>

fun task_done :: "task \<Rightarrow> bool" where
  "task_done (Raised e) = True"
| "task_done Cancelled = True"
| "task_done t = False"

text \<open>
  \<^verbatim>\<open>Task.cancel()\<close>: no effect on a task that is done; otherwise the request is
  recorded and the task stays not done until the event loop has run it once more.
\<close>

fun cancel :: "task \<Rightarrow> task" where
  "cancel (Raised e) = Raised e"
| "cancel Cancelled = Cancelled"
| "cancel t = CancelRequested"

definition cancel_task :: "task_name \<Rightarrow> BaseServer \<Rightarrow> BaseServer" where
  "cancel_task n s = (case get_task s n of None \<Rightarrow> s | Some t \<Rightarrow> set_task n (cancel t) s)"

text \<open>\<^verbatim>\<open>if watchdog: watchdog.reset()\<close>, at the top of the sender's and the receiver's loop.\<close>

definition reset_watchdog :: "BaseServer \<Rightarrow> BaseServer" where
  "reset_watchdog s = s\<lparr>watchdog := map_option reset (watchdog s)\<rparr>"

text \<open>
  \<^verbatim>\<open>
  async def ws_data_sender(self, ws, watchdog):
      que = self.que
      while True:
          if watchdog:
              watchdog.reset()
          await ws.send(await que.get())
          que.task_done()
  \<close>
  From the top of the loop to the next suspension: the watchdog is reset; with an
  empty queue the task suspends in \<^verbatim>\<open>que.get()\<close>, otherwise the head of the queue
  is removed and the task suspends in \<^verbatim>\<open>ws.send\<close> of it.
\<close>

definition sender_take :: "BaseServer \<Rightarrow> BaseServer" where
  "sender_take s =
     (case que s of
        [] \<Rightarrow> s\<lparr>sender_task := Some (Waiting QueGet)\<rparr>
      | b # q \<Rightarrow> s\<lparr>que := q, sender_task := Some (Waiting (WsSend b))\<rparr>)"

definition ws_data_sender_loop :: "BaseServer \<Rightarrow> BaseServer" where
  "ws_data_sender_loop s = sender_take (reset_watchdog s)"

text \<open>
  \<^verbatim>\<open>
  async def ws_data_receiver(self, ws, f_write_to_transport, watchdog):
      while True:
          if watchdog:
              watchdog.reset()
          f_write_to_transport(await ws.recv(), self.client)
  \<close>
\<close>

definition ws_data_receiver_loop :: "BaseServer \<Rightarrow> BaseServer" where
  "ws_data_receiver_loop s = (reset_watchdog s)\<lparr>receiver_task := Some (Waiting WsRecv)\<rparr>"

subsection \<open>The coroutine new\_client\<close>

text \<open>
  \<^verbatim>\<open>
  async def new_client(self, uri, ssl_param, f_write_to_transport, f_conn_lost, idle_timeout):
      tasks = []
      try:
          async with websockets.connect(uri, **ssl_param) as ws:
              if idle_timeout:
                  watchdog = Watchdog(idle_timeout, ConnIdleTimeout(f"Connection {self.client} has idled"))
                  tasks.append(asyncio.create_task(watchdog.start()))
              else:
                  watchdog = None
              tasks.append(asyncio.create_task(self.ws_data_sender(ws, watchdog)))
              tasks.append(asyncio.create_task(self.ws_data_receiver(ws, f_write_to_transport, watchdog)))
              done, _ = await asyncio.wait({self.shutdown, *tasks}, return_when = 'FIRST_COMPLETED')
              exc = done.pop().exception()
              if exc:
                  raise exc
      except ConnIdleTimeout as e:
          logger.info(repr(e))
      except Exception as e:
          logger.error(repr(e))
      finally:
          for t in tasks:
              t.cancel()
          if not self.shutdown.done():
              f_conn_lost(self.client)
  \<close>
\<close>

text \<open>The body of the \<^verbatim>\<open>async with\<close> block up to \<^verbatim>\<open>asyncio.wait\<close>.\<close>

definition new_client_connected :: "BaseServer \<Rightarrow> BaseServer" where
  "new_client_connected s =
     (let s1 = s\<lparr>ws := Open\<rparr>;
          s2 = (if idle_timeout s1 \<noteq> 0
                then s1\<lparr>watchdog := Some (Watchdog_init (idle_timeout s1) ConnIdleTimeout),
                        tasks := tasks s1 @ [WatchdogTask],
                        watchdog_task := Some Created\<rparr>
                else s1\<lparr>watchdog := None\<rparr>);
          s3 = s2\<lparr>tasks := tasks s2 @ [SenderTask], sender_task := Some Created\<rparr>;
          s4 = s3\<lparr>tasks := tasks s3 @ [ReceiverTask], receiver_task := Some Created\<rparr>
      in s4\<lparr>phase := Racing\<rparr>)"

text \<open>The two \<^verbatim>\<open>except\<close> clauses.\<close>

fun new_client_except :: "exn option \<Rightarrow> BaseServer \<Rightarrow> BaseServer" where
  "new_client_except None s = s"
| "new_client_except (Some ConnIdleTimeout) s = s\<lparr>logged := logged s @ [Info ConnIdleTimeout]\<rparr>"
| "new_client_except (Some e) s = s\<lparr>logged := logged s @ [Error e]\<rparr>"

text \<open>The \<^verbatim>\<open>finally\<close> clause, after which the coroutine is finished.\<close>

definition new_client_finally :: "BaseServer \<Rightarrow> BaseServer \<times> action list" where
  "new_client_finally s =
     (let s1 = fold cancel_task (tasks s) s
      in (s1\<lparr>phase := Ended\<rparr>,
          if shutdown s1 = Pending then [ConnLost (client s1)] else []))"

text \<open>
  The members of the set given to \<^verbatim>\<open>asyncio.wait\<close>, whether each is done, and the
  value of its \<^verbatim>\<open>exception()\<close>: \<^verbatim>\<open>None\<close> for the shutdown future, which is
  only ever done with a result, and the exception raised for a task. (On a cancelled
  task \<^verbatim>\<open>exception()\<close> would raise; no task is cancelled before the
  \<^verbatim>\<open>finally\<close> clause, which is proved below as part of \<open>session_inv\<close>.)
\<close>

datatype awaited = ShutdownFuture | TaskOf task_name

fun awaited_done :: "BaseServer \<Rightarrow> awaited \<Rightarrow> bool" where
  "awaited_done s ShutdownFuture = (shutdown s \<noteq> Pending)"
| "awaited_done s (TaskOf n) =
     (n \<in> set (tasks s) \<and> (case get_task s n of Some t \<Rightarrow> task_done t | None \<Rightarrow> False))"

fun awaited_exception :: "BaseServer \<Rightarrow> awaited \<Rightarrow> exn option" where
  "awaited_exception s ShutdownFuture = None"
| "awaited_exception s (TaskOf n) = (case get_task s n of Some (Raised e) \<Rightarrow> Some e | _ \<Rightarrow> None)"

subsection \<open>Events and steps\<close>

text \<open>
  \<open>Call_data_received\<close> and \<open>Call_abort\<close> are the Listener's calls. The others are
  resumptions by the event loop: the first run of \<^verbatim>\<open>new_client\<close>; the handshake's
  success or failure; the first run of a task; the sender's wake-up from
  \<^verbatim>\<open>que.get()\<close>; the completion or failure of \<^verbatim>\<open>ws.send\<close>; a tunnel message
  or a failure out of \<^verbatim>\<open>ws.recv\<close>; the return of the watchdog's
  \<^verbatim>\<open>sleep(1)\<close>; the return of \<^verbatim>\<open>asyncio.wait\<close>, with the member of
  \<open>done\<close> that \<^verbatim>\<open>done.pop()\<close> yields; the end of the connection's closing; the
  delivery of a requested cancellation to a task. An event that cannot happen in a
  state (its guard fails) leaves the state as it is.
\<close>

datatype event =
    Call_data_received data
  | Call_abort
  | NewClientStart
  | HandshakeOk
  | HandshakeFail exn
  | TaskStart task_name
  | QueueItem
  | SendOk
  | SendFail exn
  | RecvMsg data
  | RecvFail exn
  | SleepOver
  | WaitReturns awaited
  | CloseDone
  | CancelDelivered task_name

fun step :: "BaseServer \<Rightarrow> event \<Rightarrow> BaseServer \<times> action list" where
  "step s (Call_data_received d) = (data_received d s, [])"
| "step s Call_abort =
     (case abort s of Inl e \<Rightarrow> (s, [Raises e]) | Inr s' \<Rightarrow> (s', []))"
| "step s NewClientStart =
     (if phase s = Scheduled then (s\<lparr>phase := Connecting, tasks := []\<rparr>, []) else (s, []))"
| "step s HandshakeOk =
     (if phase s = Connecting then (new_client_connected s, []) else (s, []))"
| "step s (HandshakeFail e) =
     (if phase s = Connecting then new_client_finally (new_client_except (Some e) s)
      else (s, []))"
| "step s (TaskStart WatchdogTask) =
     (if watchdog_task s = Some Created then (s\<lparr>watchdog_task := Some (Waiting Sleep)\<rparr>, [])
      else (s, []))"
| "step s (TaskStart SenderTask) =
     (if sender_task s = Some Created then (ws_data_sender_loop s, []) else (s, []))"
| "step s (TaskStart ReceiverTask) =
     (if receiver_task s = Some Created then (ws_data_receiver_loop s, []) else (s, []))"
| "step s QueueItem =
     (if sender_task s = Some (Waiting QueGet) \<and> que s \<noteq> [] then (sender_take s, [])
      else (s, []))"
| "step s SendOk =
     (case sender_task s of
        Some (Waiting (WsSend b)) \<Rightarrow> (ws_data_sender_loop (s\<lparr>ws_sent := ws_sent s @ [b]\<rparr>), [])
      | _ \<Rightarrow> (s, []))"
| "step s (SendFail e) =
     (case sender_task s of
        Some (Waiting (WsSend b)) \<Rightarrow> (s\<lparr>sender_task := Some (Raised e)\<rparr>, [])
      | _ \<Rightarrow> (s, []))"
| "step s (RecvMsg m) =
     (if receiver_task s = Some (Waiting WsRecv)
      then (ws_data_receiver_loop s, [WriteToTransport m (client s)])
      else (s, []))"
| "step s (RecvFail e) =
     (if receiver_task s = Some (Waiting WsRecv) then (s\<lparr>receiver_task := Some (Raised e)\<rparr>, [])
      else (s, []))"
| "step s SleepOver =
     (case (watchdog_task s, watchdog s) of
        (Some (Waiting Sleep), Some w) \<Rightarrow>
          (case start_tick w of
             (w', Some e) \<Rightarrow> (s\<lparr>watchdog := Some w', watchdog_task := Some (Raised e)\<rparr>, [])
           | (w', None) \<Rightarrow> (s\<lparr>watchdog := Some w'\<rparr>, []))
      | _ \<Rightarrow> (s, []))"
| "step s (WaitReturns a) =
     (if phase s = Racing \<and> awaited_done s a
      then (s\<lparr>phase := Closing (awaited_exception s a)\<rparr>, [])
      else (s, []))"
| "step s CloseDone =
     (case phase s of
        Closing r \<Rightarrow> new_client_finally (new_client_except r (s\<lparr>ws := Closed\<rparr>))
      | _ \<Rightarrow> (s, []))"
| "step s (CancelDelivered n) =
     (if get_task s n = Some CancelRequested then (set_task n Cancelled s, []) else (s, []))"

text \<open>A run: the state after a list of events, and the actions taken, in order.\<close>

fun run :: "BaseServer \<Rightarrow> event list \<Rightarrow> BaseServer \<times> action list" where
  "run s [] = (s, [])"
| "run s (ev # evs) =
     (case step s ev of (s', acts) \<Rightarrow> (case run s' evs of (s'', acts') \<Rightarrow> (s'', acts @ acts')))"

text \<open>The calls of \<^verbatim>\<open>f_conn_lost\<close> among the actions: the "ended" notifications.\<close>

fun notifications :: "action list \<Rightarrow> client list" where
  "notifications [] = []"
| "notifications (ConnLost c # acts) = c # notifications acts"
| "notifications (a # acts) = notifications acts"

text \<open>The buffers passed to \<^verbatim>\<open>data_received\<close> by a list of events, in order.\<close>

fun buffers :: "event list \<Rightarrow> data list" where
  "buffers [] = []"
| "buffers (Call_data_received d # evs) = d # buffers evs"
| "buffers (ev # evs) = buffers evs"

subsection \<open>Observations on a Session\<close>

text \<open>
  The buffer the sender has taken from the queue and is sending, if it is suspended in
  \<^verbatim>\<open>ws.send\<close>.
\<close>

fun in_flight :: "task option \<Rightarrow> data list" where
  "in_flight (Some (Waiting (WsSend b))) = [b]"
| "in_flight t = []"

text \<open>
  A task that takes no further step of its coroutine's loop: it is done, or a
  cancellation has been requested and is pending.
\<close>

fun task_stopped :: "task \<Rightarrow> bool" where
  "task_stopped (Raised e) = True"
| "task_stopped CancelRequested = True"
| "task_stopped Cancelled = True"
| "task_stopped t = False"

text \<open>The sender can still send: it has not been created yet, or it is not stopped.\<close>

fun sender_live :: "task option \<Rightarrow> bool" where
  "sender_live None = True"
| "sender_live (Some t) = (\<not> task_stopped t)"

text \<open>
  Conservation of the buffers \<open>bs\<close> received so far: they are the messages sent,
  then at most one buffer taken from the queue and not sent (the one in flight, while
  the sender lives), then the queue.
\<close>

definition conserved :: "BaseServer \<Rightarrow> data list \<Rightarrow> bool" where
  "conserved s bs \<longleftrightarrow>
     (\<exists>mid. ws_sent s @ mid @ que s = bs \<and> length mid \<le> 1 \<and>
        (sender_live (sender_task s) \<longrightarrow> mid = in_flight (sender_task s)))"

text \<open>
  What holds of a Session in every state it can reach. Before the handshake has
  succeeded there is no task, no connection and nothing sent. The list
  \<^verbatim>\<open>tasks\<close> holds exactly the tasks created. During the race and while the
  connection closes, the connection is there and no task has been asked to cancel.
  Once \<^verbatim>\<open>new_client\<close> has finished, the connection is not open and every task
  is stopped.
\<close>

definition early :: "BaseServer \<Rightarrow> bool" where
  "early s \<longleftrightarrow> phase s = Scheduled \<or> phase s = Connecting"

definition racing_or_closing :: "BaseServer \<Rightarrow> bool" where
  "racing_or_closing s \<longleftrightarrow> (case phase s of Racing \<Rightarrow> True | Closing r \<Rightarrow> True | _ \<Rightarrow> False)"

definition session_inv :: "BaseServer \<Rightarrow> bool" where
  "session_inv s \<longleftrightarrow>
     (\<forall>n. n \<in> set (tasks s) \<longleftrightarrow> get_task s n \<noteq> None) \<and>
     (early s \<longrightarrow> tasks s = [] \<and> ws s = NoConn \<and> ws_sent s = []) \<and>
     (racing_or_closing s \<longrightarrow>
        ws s = Open \<and>
        (\<forall>n t. get_task s n = Some t \<longrightarrow> t \<noteq> CancelRequested \<and> t \<noteq> Cancelled)) \<and>
     (phase s = Ended \<longrightarrow>
        ws s \<noteq> Open \<and> (\<forall>n t. get_task s n = Some t \<longrightarrow> task_stopped t))"

text \<open>
  The turns of the sender: the events by which the event loop runs the sender, from a
  state in which it has been created and is not stopped, until it waits on the empty
  queue, when every \<^verbatim>\<open>ws.send\<close> completes. The sender starts if it has not run
  yet, or wakes up from \<^verbatim>\<open>que.get()\<close> if it waits there and the queue is not
  empty; then one send completes for the buffer it holds and for each buffer of the
  queue.
\<close>

definition sender_turns :: "BaseServer \<Rightarrow> event list" where
  "sender_turns s =
     (case sender_task s of
        Some Created \<Rightarrow> TaskStart SenderTask # replicate (length (que s)) SendOk
      | Some (Waiting QueGet) \<Rightarrow>
          (if que s = [] then [] else QueueItem # replicate (length (que s)) SendOk)
      | Some (Waiting (WsSend b)) \<Rightarrow> replicate (Suc (length (que s))) SendOk
      | _ \<Rightarrow> [])"

section \<open>UDP Listener (class UdpServer)\<close>

text \<open>
  \<^verbatim>\<open>
  class UdpServer:
      def __init__(self, uri, certfile, client_cert, idle_timeout):
          self.base_servers = dict()
          self.args = [uri, certfile, client_cert, idle_timeout]
  \<close>
  The dictionary \<^verbatim>\<open>base_servers\<close> maps an address to a reference to a Session
  object. References are indices into \<open>objects\<close>, the store of every Session this
  Listener has constructed, in the order of construction; an object stays in the
  store when the dictionary no longer refers to it. \<open>sent_to\<close> records the calls of
  \<^verbatim>\<open>transport.sendto\<close>, \<open>errors\<close> the exceptions that left a callback.
\<close>

record UdpServer =
  base_servers :: "client \<rightharpoonup> nat"
  args :: "string \<times> string option \<times> string option \<times> int"
  objects :: "BaseServer list"
  sent_to :: "(data \<times> client) list"
  errors :: "exn list"

definition UdpServer_init :: "string \<Rightarrow> string option \<Rightarrow> string option \<Rightarrow> int \<Rightarrow> UdpServer" where
  "UdpServer_init u certfile client_cert t =
     \<lparr>base_servers = Map.empty, args = (u, certfile, client_cert, t),
      objects = [], sent_to = [], errors = []\<rparr>"

text \<open>
  \<^verbatim>\<open>
  def datagram_received(self, data, addr):
      try:
          base = self.base_servers[addr]
      except KeyError:
          logger.info(f'New UDP connection from {addr}')
          base = self.base_servers[addr] = BaseServer(addr,
                                                      self.transport.sendto,
                                                      self.upstream_lost,
                                                      *self.args
                                                     )
      base.data_received(data)
  \<close>
  The \<^verbatim>\<open>try\<close> covers the lookup only. When the constructor raises, the
  assignment to \<^verbatim>\<open>self.base_servers[addr]\<close> does not take place, the datagram
  is not queued anywhere and the exception leaves \<^verbatim>\<open>datagram_received\<close>
  (\<open>Inl\<close>). The first argument is the state of the TLS files when the datagram
  arrives.
\<close>

definition datagram_received :: "ssl_env \<Rightarrow> data \<Rightarrow> client \<Rightarrow> UdpServer \<Rightarrow> exn + UdpServer" where
  "datagram_received env d addr u =
     (case base_servers u addr of
        Some i \<Rightarrow> Inr (u\<lparr>objects := (objects u)[i := data_received d (objects u ! i)]\<rparr>)
      | None \<Rightarrow>
          (case args u of (uri', certfile, client_cert, t) \<Rightarrow>
             (case BaseServer_init env addr uri' certfile client_cert t of
                Inl e \<Rightarrow> Inl e
              | Inr base \<Rightarrow>
                  Inr (u\<lparr>base_servers := (base_servers u)(addr \<mapsto> length (objects u)),
                         objects := objects u @ [data_received d base]\<rparr>))))"

text \<open>
  \<^verbatim>\<open>
  def upstream_lost(self, addr):
      logger.info(f'Upstream connection for UDP client {addr} is gone')
      self.base_servers.pop(addr)
  \<close>
  \<^verbatim>\<open>dict.pop\<close> with no default raises \<^verbatim>\<open>KeyError\<close> on a missing key.
\<close>

definition upstream_lost :: "client \<Rightarrow> UdpServer \<Rightarrow> exn + UdpServer" where
  "upstream_lost addr u =
     (case base_servers u addr of
        None \<Rightarrow> Inl KeyError
      | Some i \<Rightarrow> Inr (u\<lparr>base_servers := (base_servers u)(addr := None)\<rparr>))"

text \<open>
  What an action of a Session does to its Listener: \<^verbatim>\<open>f_conn_lost\<close> is
  \<^verbatim>\<open>self.upstream_lost\<close> and \<^verbatim>\<open>f_write_to_transport\<close> is
  \<^verbatim>\<open>self.transport.sendto\<close>.
\<close>

fun perform :: "action \<Rightarrow> UdpServer \<Rightarrow> UdpServer" where
  "perform (ConnLost a) u =
     (case upstream_lost a u of Inl e \<Rightarrow> u\<lparr>errors := errors u @ [e]\<rparr> | Inr u' \<Rightarrow> u')"
| "perform (WriteToTransport d a) u = u\<lparr>sent_to := sent_to u @ [(d, a)]\<rparr>"
| "perform (Raises e) u = u\<lparr>errors := errors u @ [e]\<rparr>"

text \<open>
  The events of a Session that the event loop produces. The other two are calls by a
  Listener; this Listener calls \<^verbatim>\<open>data_received\<close> only from
  \<^verbatim>\<open>datagram_received\<close> and never calls \<^verbatim>\<open>abort\<close>.
\<close>

fun internal :: "event \<Rightarrow> bool" where
  "internal (Call_data_received d) = False"
| "internal Call_abort = False"
| "internal ev = True"

text \<open>
  The events of the Listener: a datagram arrives from an address, the TLS files being
  in some state at that time, or the event loop resumes the Session object \<open>i\<close> with
  an event of its own. An exception that leaves \<^verbatim>\<open>datagram_received\<close> is
  recorded in \<open>errors\<close> and the Listener goes on as it was.
\<close>

datatype udp_event = Datagram ssl_env data client | SessionEvent nat event

fun udp_step :: "UdpServer \<Rightarrow> udp_event \<Rightarrow> UdpServer" where
  "udp_step u (Datagram env d addr) =
     (case datagram_received env d addr u of
        Inl e \<Rightarrow> u\<lparr>errors := errors u @ [e]\<rparr>
      | Inr u' \<Rightarrow> u')"
| "udp_step u (SessionEvent i ev) =
     (if i < length (objects u) \<and> internal ev
      then (case step (objects u ! i) ev of
              (s', acts) \<Rightarrow> fold perform acts (u\<lparr>objects := (objects u)[i := s']\<rparr>))
      else u)"

fun udp_run :: "UdpServer \<Rightarrow> udp_event list \<Rightarrow> UdpServer" where
  "udp_run u [] = u"
| "udp_run u (ev # evs) = udp_run (udp_step u ev) evs"

text \<open>A Session is live until \<^verbatim>\<open>new_client\<close> has finished.\<close>

definition live :: "BaseServer \<Rightarrow> bool" where
  "live s \<longleftrightarrow> phase s \<noteq> Ended"

text \<open>
  What holds of the Listener in every state it can reach: an entry of the dictionary
  refers to a live Session of that address; a live Session is the entry of its
  address; no Session has been aborted.
\<close>

definition udp_inv :: "UdpServer \<Rightarrow> bool" where
  "udp_inv u \<longleftrightarrow>
     (\<forall>a i. base_servers u a = Some i \<longrightarrow>
        i < length (objects u) \<and> client (objects u ! i) = a \<and> live (objects u ! i)) \<and>
     (\<forall>i. i < length (objects u) \<and> live (objects u ! i) \<longrightarrow>
        base_servers u (client (objects u ! i)) = Some i) \<and>
     (\<forall>i. i < length (objects u) \<longrightarrow> shutdown (objects u ! i) = Pending)"

text \<open>
  An event of the Listener in which no constructor raises: a datagram that finds the
  TLS files in a state in which the constructor returns, for the arguments of the
  Listener, or an event of a Session.
\<close>

fun constructs :: "string \<Rightarrow> string option \<Rightarrow> string option \<Rightarrow> int \<Rightarrow> udp_event \<Rightarrow> bool" where
  "constructs u certfile client_cert t (Datagram env d addr) =
     (\<not> isl (BaseServer_init env addr u certfile client_cert t))"
| "constructs u certfile client_cert t (SessionEvent i ev) = True"

section \<open>Password file and tunnel URL\<close>

text \<open>
  Python strings are modelled as \<open>string\<close>, the UTF-8 bytes of the text. Every
  character the functions below look for is ASCII, and an ASCII byte never occurs inside
  the encoding of another character, so searching, splitting and stripping the bytes is
  searching, splitting and stripping the text; percent-encoding works on those bytes.
\<close>

definition ord :: "char \<Rightarrow> nat" where
  "ord c = of_char c"

definition is_upper :: "char \<Rightarrow> bool" where
  "is_upper c \<longleftrightarrow> 65 \<le> ord c \<and> ord c \<le> 90"

definition is_lower :: "char \<Rightarrow> bool" where
  "is_lower c \<longleftrightarrow> 97 \<le> ord c \<and> ord c \<le> 122"

definition is_digit :: "char \<Rightarrow> bool" where
  "is_digit c \<longleftrightarrow> 48 \<le> ord c \<and> ord c \<le> 57"

definition is_alpha :: "char \<Rightarrow> bool" where
  "is_alpha c \<longleftrightarrow> is_upper c \<or> is_lower c"

text \<open>\<^verbatim>\<open>str.lower\<close> on one character, where the character is ASCII.\<close>

definition lower :: "char \<Rightarrow> char" where
  "lower c = (if is_upper c then char_of (ord c + 32) else c)"

definition LF :: char where "LF = CHR 0x0A"
definition CR :: char where "CR = CHR 0x0D"
definition TAB :: char where "TAB = CHR 0x09"

subsection \<open>get\_passwd\_from\_file\<close>

text \<open>
  \<^verbatim>\<open>
  def get_passwd_from_file(path):
      with open(path, 'r') as fi:
          return fi.readline().rstrip('\r\n')
  \<close>
  \<^verbatim>\<open>open(path, 'r')\<close> opens the file in text mode: with the encoding of the
  locale, strictly, and with \<^verbatim>\<open>newline=None\<close>. \<^verbatim>\<open>readline()\<close> reads the file
  through the text layer (\<^verbatim>\<open>io.TextIOWrapper\<close>): it asks the file for bytes, up to
  8192 at a time (\<^verbatim>\<open>read1\<close>), decodes each answer as a whole with the incremental
  decoder of the encoding, turns every \<^verbatim>\<open>'\r\n'\<close> and \<^verbatim>\<open>'\r'\<close> of the decoded
  text into \<^verbatim>\<open>'\n'\<close>, and goes on until the text read holds a \<^verbatim>\<open>'\n'\<close> or the
  file has ended. The bytes that follow the first line in the read that holds its
  terminator are thus decoded as well, and a read that does not decode raises, wherever
  the bad bytes are in it.

  An open file is the list of the results of its successive reads: each is the
  exception the read raises or the bytes it returns. After them every read returns no
  bytes, which is the end of the file. (A regular file of no more than 8192 bytes is
  one read, its content.) The file system gives, for a path, the exception that
  \<^verbatim>\<open>open\<close> raises or the open file.
\<close>

type_synonym open_file = "(exn + string) list"

definition read1 :: "open_file \<Rightarrow> exn + string" where
  "read1 reads = (case reads of [] \<Rightarrow> Inr [] | r # rs \<Rightarrow> r)"

text \<open>
  An encoding is given by its incremental decoder: from the state of the decoder, the
  bytes of a read and whether the call is the last one (\<^verbatim>\<open>final\<close>), the text
  decoded (like every text here, as its UTF-8 bytes) and the new state, or the
  exception raised. A decoder may keep back the bytes at the end of a read that begin a
  character, for the next call.
\<close>

record 'd codec =
  initial :: 'd
  decode :: "'d \<Rightarrow> string \<Rightarrow> bool \<Rightarrow> exn + string \<times> 'd"

text \<open>
  The decoder of the encoding \<^verbatim>\<open>ascii\<close>, for the examples: it has no state and
  raises \<^verbatim>\<open>UnicodeDecodeError\<close> on a byte above 127. (UTF-8, the encoding of most
  locales, decodes the bytes up to 127 in the same way and raises on the byte 255 too,
  which occurs in no UTF-8 text.)
\<close>

definition ascii :: "unit codec" where
  "ascii =
     \<lparr>initial = (),
      decode = (\<lambda>st input final.
        if list_all (\<lambda>c. ord c < 128) input then Inr (input, ()) else Inl UnicodeDecodeError)\<rparr>"

text \<open>
  The translation of the line ends of a decoded text: \<^verbatim>\<open>'\r\n'\<close> and \<^verbatim>\<open>'\r'\<close>
  become \<^verbatim>\<open>'\n'\<close>.
\<close>

fun translate_newlines :: "string \<Rightarrow> string" where
  "translate_newlines [] = []"
| "translate_newlines [c] = (if c = CR then [LF] else [c])"
| "translate_newlines (c # d # s) =
     (if c = CR \<and> d = LF then LF # translate_newlines s
      else if c = CR then LF # translate_newlines (d # s)
      else c # translate_newlines (d # s))"

text \<open>
  One call of the decoder of the text layer (\<^verbatim>\<open>io.IncrementalNewlineDecoder\<close>, over
  the decoder of the encoding). Its state is the state of the decoder of the encoding
  and a flag: a \<^verbatim>\<open>'\r'\<close> that ended the text of the previous call is kept back, so
  that a \<^verbatim>\<open>'\n'\<close> that begins the next read is seen with it. The call decodes the
  bytes, puts the kept \<^verbatim>\<open>'\r'\<close> back in front (when there is text, or at the last
  call), keeps back a \<^verbatim>\<open>'\r'\<close> that ends the text (unless this is the last call), and
  translates the line ends.
\<close>

definition newline_decode ::
  "'d codec \<Rightarrow> 'd \<times> bool \<Rightarrow> string \<Rightarrow> bool \<Rightarrow> exn + string \<times> ('d \<times> bool)" where
  "newline_decode enc st input final =
     (case decode enc (fst st) input final of
        Inl e \<Rightarrow> Inl e
      | Inr (output, d') \<Rightarrow>
          (let put_back = (snd st \<and> (final \<or> output \<noteq> []));
               output1 = (if put_back then CR # output else output);
               hold = (\<not> final \<and> output1 \<noteq> [] \<and> last output1 = CR);
               output2 = (if hold then butlast output1 else output1)
           in Inr (translate_newlines output2, (d', hold \<or> (snd st \<and> \<not> put_back)))))"

text \<open>
  \<^verbatim>\<open>readline()\<close>, with the text read so far and not yet returned in \<open>acc\<close>: one
  read and its decoding, the last call of the decoder being the one on a read that
  returned no bytes. When the read returned no bytes and the decoder no text, the file
  has ended and the line is the text read so far. When the text decoded holds a
  \<^verbatim>\<open>'\n'\<close>, the line ends there. Otherwise the text is kept and the file is read
  again. The loop ends with the file for every decoder of the library; here it is a
  partial function, \<open>None\<close> standing for a loop that does not end.
\<close>

partial_function (option) readline_loop ::
  "'d codec \<Rightarrow> 'd \<times> bool \<Rightarrow> open_file \<Rightarrow> string \<Rightarrow> (exn + string) option" where
  "readline_loop enc st reads acc =
     (case read1 reads of
        Inl e \<Rightarrow> Some (Inl e)
      | Inr chunk \<Rightarrow>
          (case newline_decode enc st chunk (chunk = []) of
             Inl e \<Rightarrow> Some (Inl e)
           | Inr (out, st') \<Rightarrow>
               if chunk = [] \<and> out = [] then Some (Inr acc)
               else if LF \<in> set out then Some (Inr (acc @ takeWhile (\<lambda>c. c \<noteq> LF) out @ [LF]))
               else readline_loop enc st' (tl reads) (acc @ out)))"

definition readline :: "'d codec \<Rightarrow> open_file \<Rightarrow> (exn + string) option" where
  "readline enc reads = readline_loop enc (initial enc, False) reads []"

text \<open>\<^verbatim>\<open>str.rstrip(chars)\<close>: the trailing characters that are in \<open>chars\<close> are removed.\<close>

definition rstrip :: "string \<Rightarrow> string \<Rightarrow> string" where
  "rstrip chars s = rev (dropWhile (\<lambda>c. c \<in> set chars) (rev s))"

definition get_passwd_from_file ::
  "'d codec \<Rightarrow> (string \<Rightarrow> exn + open_file) \<Rightarrow> string \<Rightarrow> (exn + string) option" where
  "get_passwd_from_file enc fs path =
     (case fs path of
        Inl e \<Rightarrow> Some (Inl e)
      | Inr reads \<Rightarrow>
          (case readline enc reads of
             None \<Rightarrow> None
           | Some (Inl e) \<Rightarrow> Some (Inl e)
           | Some (Inr line) \<Rightarrow> Some (Inr (rstrip [CR, LF] line))))"

subsection \<open>urllib.parse.urlencode\<close>

text \<open>
  \<^verbatim>\<open>urlencode({'t': passwd})\<close> is \<^verbatim>\<open>'t=' + quote_plus(passwd)\<close> (the key
  \<^verbatim>\<open>'t'\<close> quotes to itself). \<^verbatim>\<open>quote_plus\<close>, with its default empty
  \<^verbatim>\<open>safe\<close>, keeps the bytes of letters, digits and \<^verbatim>\<open>_.-~\<close>, writes a space as
  \<^verbatim>\<open>+\<close> and every other byte as \<^verbatim>\<open>%XX\<close>, two upper-case hexadecimal digits.
\<close>

definition always_safe :: "char \<Rightarrow> bool" where
  "always_safe c \<longleftrightarrow> is_alpha c \<or> is_digit c \<or> c \<in> set ''_.-~''"

definition hex_digit :: "nat \<Rightarrow> char" where
  "hex_digit n = ''0123456789ABCDEF'' ! n"

definition quote_byte :: "char \<Rightarrow> string" where
  "quote_byte c =
     (if c = CHR '' '' then ''+''
      else if always_safe c then [c]
      else [CHR ''%'', hex_digit (ord c div 16), hex_digit (ord c mod 16)])"

definition quote_plus :: "string \<Rightarrow> string" where
  "quote_plus s = concat (map quote_byte s)"

definition urlencode_t :: "string \<Rightarrow> string" where
  "urlencode_t passwd = ''t='' @ quote_plus passwd"

subsection \<open>urllib.parse.urlparse and urlunparse\<close>

text \<open>
  The six components of \<^verbatim>\<open>ParseResult\<close>. The functions follow
  \<^verbatim>\<open>urllib/parse.py\<close> of CPython 3.11 (as of 3.11.4), tables included.
\<close>

record ParseResult =
  scheme :: string
  netloc :: string
  path :: string
  params :: string
  query :: string
  fragment :: string

definition uses_netloc :: "string list" where
  "uses_netloc = ['''', ''ftp'', ''http'', ''gopher'', ''nntp'', ''telnet'', ''imap'', ''wais'',
     ''file'', ''mms'', ''https'', ''shttp'', ''snews'', ''prospero'', ''rtsp'', ''rtspu'',
     ''rsync'', ''svn'', ''svn+ssh'', ''sftp'', ''nfs'', ''git'', ''git+ssh'', ''ws'', ''wss'']"

definition uses_params :: "string list" where
  "uses_params = ['''', ''ftp'', ''hdl'', ''prospero'', ''http'', ''imap'', ''https'', ''shttp'',
     ''rtsp'', ''rtspu'', ''sip'', ''sips'', ''mms'', ''sftp'', ''tel'']"

definition scheme_char :: "char \<Rightarrow> bool" where
  "scheme_char c \<longleftrightarrow> is_alpha c \<or> is_digit c \<or> c \<in> set ''+-.''"

text \<open>
  \<^verbatim>\<open>url.lstrip(_WHATWG_C0_CONTROL_OR_SPACE)\<close> removes leading characters up to
  \<^verbatim>\<open>'\x20'\<close>; then every tab, carriage return and line feed is removed.
\<close>

definition c0_control_or_space :: "char \<Rightarrow> bool" where
  "c0_control_or_space c \<longleftrightarrow> ord c \<le> 32"

definition unsafe_byte :: "char \<Rightarrow> bool" where
  "unsafe_byte c \<longleftrightarrow> c = TAB \<or> c = CR \<or> c = LF"

definition sanitize :: "string \<Rightarrow> string" where
  "sanitize url = filter (\<lambda>c. \<not> unsafe_byte c) (dropWhile c0_control_or_space url)"

text \<open>
  \<^verbatim>\<open>
  i = url.find(':')
  if i > 0 and url[0].isascii() and url[0].isalpha():
      for c in url[:i]:
          if c not in scheme_chars:
              break
      else:
          scheme, url = url[:i].lower(), url[i+1:]
  \<close>
  \<open>before c s\<close> is \<^verbatim>\<open>s[:s.find(c)]\<close> and \<open>after c s\<close> is
  \<^verbatim>\<open>s[s.find(c)+1:]\<close>, where \<open>c\<close> occurs in \<open>s\<close>.
\<close>

definition before :: "char \<Rightarrow> string \<Rightarrow> string" where
  "before c s = takeWhile (\<lambda>x. x \<noteq> c) s"

definition after :: "char \<Rightarrow> string \<Rightarrow> string" where
  "after c s = tl (dropWhile (\<lambda>x. x \<noteq> c) s)"

definition split_scheme :: "string \<Rightarrow> string \<times> string" where
  "split_scheme url =
     (if CHR '':'' \<in> set url \<and> before CHR '':'' url \<noteq> [] \<and> is_alpha (hd url)
         \<and> list_all scheme_char (before CHR '':'' url)
      then (map lower (before CHR '':'' url), after CHR '':'' url)
      else ([], url))"

text \<open>
  \<^verbatim>\<open>_splitnetloc(url, 2)\<close>: the network location runs from index 2 to the first of
  \<^verbatim>\<open>/?#\<close>, or to the end.
\<close>

definition netloc_delim :: "char \<Rightarrow> bool" where
  "netloc_delim c \<longleftrightarrow> c \<in> set ''/?#''"

definition splitnetloc :: "string \<Rightarrow> string \<times> string" where
  "splitnetloc url =
     (takeWhile (\<lambda>c. \<not> netloc_delim c) (drop 2 url),
      dropWhile (\<lambda>c. \<not> netloc_delim c) (drop 2 url))"

text \<open>
  The checks of the network location: one bracket without the other raises
  \<^verbatim>\<open>ValueError\<close>. A bracketed host is then validated as an IP literal
  (\<^verbatim>\<open>_check_bracketed_host\<close>) and a network location with a character outside
  ASCII is checked under NFKC normalisation (\<^verbatim>\<open>_checknetloc\<close>); these two are
  the parameter \<open>valid\<close>, consulted only for such network locations.
\<close>

definition netloc_accepted :: "(string \<Rightarrow> bool) \<Rightarrow> string \<Rightarrow> bool" where
  "netloc_accepted valid nl \<longleftrightarrow>
     (CHR ''['' \<in> set nl) = (CHR '']'' \<in> set nl) \<and>
     (if CHR ''['' \<in> set nl \<or> \<not> list_all (\<lambda>c. ord c < 128) nl then valid nl else True)"

text \<open>
  \<^verbatim>\<open>
  if url[:2] == '//':
      netloc, url = _splitnetloc(url, 2)
      ...
  if allow_fragments and '#' in url:
      url, fragment = url.split('#', 1)
  if '?' in url:
      url, query = url.split('?', 1)
  _checknetloc(netloc)
  \<close>
  The result is (scheme, netloc, path, query, fragment).
\<close>

definition urlsplit ::
  "(string \<Rightarrow> bool) \<Rightarrow> string \<Rightarrow> exn + (string \<times> string \<times> string \<times> string \<times> string)" where
  "urlsplit valid url0 =
     (case split_scheme (sanitize url0) of (sch, url1) \<Rightarrow>
      case (if take 2 url1 = ''//'' then splitnetloc url1 else ([], url1)) of (nl, url2) \<Rightarrow>
      if \<not> netloc_accepted valid nl then Inl ValueError
      else
        case (if CHR ''#'' \<in> set url2 then (before CHR ''#'' url2, after CHR ''#'' url2)
              else (url2, [])) of (url3, frag) \<Rightarrow>
        case (if CHR ''?'' \<in> set url3 then (before CHR ''?'' url3, after CHR ''?'' url3)
              else (url3, [])) of (url4, qry) \<Rightarrow>
        Inr (sch, nl, url4, qry, frag))"

text \<open>
  \<^verbatim>\<open>
  def _splitparams(url):
      if '/'  in url:
          i = url.find(';', url.rfind('/'))
          if i < 0:
              return url, ''
      else:
          i = url.find(';')
      return url[:i], url[i+1:]
  \<close>
  It is called only when \<^verbatim>\<open>';'\<close> occurs in \<open>url\<close>. \<open>last_segment\<close> is the
  part of \<open>url\<close> from its last \<^verbatim>\<open>'/'\<close> on (all of it when there is none).
\<close>

definition last_segment :: "string \<Rightarrow> string" where
  "last_segment url = rev (takeWhile (\<lambda>c. c \<noteq> CHR ''/'') (rev url))"

definition splitparams :: "string \<Rightarrow> string \<times> string" where
  "splitparams url =
     (let seg = last_segment url;
          dir = take (length url - length seg) url
      in if CHR '';'' \<in> set seg
         then (dir @ before CHR '';'' seg, after CHR '';'' seg)
         else (url, []))"

text \<open>
  \<^verbatim>\<open>
  def urlparse(url, scheme='', allow_fragments=True):
      splitresult = urlsplit(url, scheme, allow_fragments)
      scheme, netloc, url, query, fragment = splitresult
      if scheme in uses_params and ';' in url:
          url, params = _splitparams(url)
      else:
          params = ''
      return ParseResult(scheme, netloc, url, params, query, fragment)
  \<close>
\<close>

definition urlparse :: "(string \<Rightarrow> bool) \<Rightarrow> string \<Rightarrow> exn + ParseResult" where
  "urlparse valid url =
     (case urlsplit valid url of
        Inl e \<Rightarrow> Inl e
      | Inr (sch, nl, url', qry, frag) \<Rightarrow>
          (case (if sch \<in> set uses_params \<and> CHR '';'' \<in> set url' then splitparams url'
                 else (url', [])) of (p, prm) \<Rightarrow>
             Inr \<lparr>scheme = sch, netloc = nl, path = p, params = prm, query = qry, fragment = frag\<rparr>))"

text \<open>
  \<^verbatim>\<open>
  def urlunsplit(components):
      scheme, netloc, url, query, fragment = components
      if netloc or (scheme and scheme in uses_netloc and url[:2] != '//'):
          if url and url[:1] != '/': url = '/' + url
          url = '//' + (netloc or '') + url
      if scheme:
          url = scheme + ':' + url
      if query:
          url = url + '?' + query
      if fragment:
          url = url + '#' + fragment
      return url
  \<close>
\<close>

definition urlunsplit :: "string \<times> string \<times> string \<times> string \<times> string \<Rightarrow> string" where
  "urlunsplit c =
     (case c of (sch, nl, url, qry, frag) \<Rightarrow>
        let url1 = (if nl \<noteq> [] \<or> (sch \<noteq> [] \<and> sch \<in> set uses_netloc \<and> take 2 url \<noteq> ''//'')
                    then ''//'' @ nl @ (if url \<noteq> [] \<and> take 1 url \<noteq> ''/'' then ''/'' @ url else url)
                    else url);
            url2 = (if sch \<noteq> [] then sch @ '':'' @ url1 else url1);
            url3 = (if qry \<noteq> [] then url2 @ ''?'' @ qry else url2)
        in if frag \<noteq> [] then url3 @ ''#'' @ frag else url3)"

text \<open>
  \<^verbatim>\<open>
  def urlunparse(components):
      scheme, netloc, url, params, query, fragment = components
      if params:
          url = "%s;%s" % (url, params)
      return urlunsplit((scheme, netloc, url, query, fragment))
  \<close>
\<close>

definition urlunparse :: "ParseResult \<Rightarrow> string" where
  "urlunparse r =
     urlunsplit (scheme r, netloc r,
                 (if params r \<noteq> [] then path r @ '';'' @ params r else path r),
                 query r, fragment r)"

subsection \<open>update\_url\_with\_passwd\<close>

text \<open>
  \<^verbatim>\<open>
  def update_url_with_passwd(url, passwd):
      url = urlparse(url)
      url = url._replace(query = urlencode({'t': passwd}))
      return urlunparse(url)
  \<close>
\<close>

definition update_url_with_passwd :: "(string \<Rightarrow> bool) \<Rightarrow> string \<Rightarrow> string \<Rightarrow> exn + string" where
  "update_url_with_passwd valid url passwd =
     (case urlparse valid url of
        Inl e \<Rightarrow> Inl e
      | Inr r \<Rightarrow> Inr (urlunparse (r\<lparr>query := urlencode_t passwd\<rparr>)))"

text \<open>
  The tunnel URL as \<^verbatim>\<open>main\<close> computes it:
  \<^verbatim>\<open>
  if passwd_file:
      uri = update_url_with_passwd(uri, get_passwd_from_file(passwd_file))
  \<close>
\<close>

definition tunnel_uri ::
  "(string \<Rightarrow> bool) \<Rightarrow> 'd codec \<Rightarrow> (string \<Rightarrow> exn + open_file) \<Rightarrow> string \<Rightarrow> string option
     \<Rightarrow> (exn + string) option" where
  "tunnel_uri valid enc fs u passwd_file =
     (case passwd_file of
        None \<Rightarrow> Some (Inr u)
      | Some f \<Rightarrow>
          if f = [] then Some (Inr u)
          else (case get_passwd_from_file enc fs f of
                  None \<Rightarrow> None
                | Some (Inl e) \<Rightarrow> Some (Inl e)
                | Some (Inr passwd) \<Rightarrow> Some (update_url_with_passwd valid u passwd)))"

subsection \<open>Shapes of strings\<close>

text \<open>
  The characters \<^verbatim>\<open>urlencode\<close> can produce; a string with no tab, carriage
  return or line feed; a scheme as \<^verbatim>\<open>urlsplit\<close> returns it, empty or lower-case
  scheme characters after a letter.
\<close>

definition query_char :: "char \<Rightarrow> bool" where
  "query_char c \<longleftrightarrow> always_safe c \<or> c = CHR ''+'' \<or> c = CHR ''%'' \<or> c = CHR ''=''"

definition clean :: "string \<Rightarrow> bool" where
  "clean s \<longleftrightarrow> list_all (\<lambda>c. \<not> unsafe_byte c) s"

definition scheme_ok :: "string \<Rightarrow> bool" where
  "scheme_ok sch \<longleftrightarrow>
     sch = [] \<or> (is_alpha (hd sch) \<and> list_all scheme_char sch \<and> map lower sch = sch)"

text \<open>
  A validation of network locations that refuses nothing, for URLs whose network
  location is plain ASCII without brackets, where it is not consulted.
\<close>

definition accept_all :: "string \<Rightarrow> bool" where
  "accept_all nl = True"

section \<open>Properties of the Watchdog\<close>

lemma sublist_ticks_short:
  "c < n \<Longrightarrow> \<not> sublist (replicate n Tick) (replicate c Tick)"
proof
  assume "c < n" and "sublist (replicate n Tick) (replicate c Tick)"
  then have "length (replicate n Tick) \<le> length (replicate c Tick)"
    using sublist_length_le by blast
  with \<open>c < n\<close> show False by simp
qed

lemma prefix_ticks_across_reset:
  "prefix (replicate n Tick) (xs @ Reset # ys) \<longleftrightarrow> prefix (replicate n Tick) xs"
proof
  assume "prefix (replicate n Tick) (xs @ Reset # ys)"
  then consider "prefix (replicate n Tick) xs"
    | us where "replicate n Tick = xs @ us" "prefix us (Reset # ys)"
    by (auto simp: prefix_append)
  then show "prefix (replicate n Tick) xs"
  proof cases
    case 1
    then show ?thesis .
  next
    case 2
    show ?thesis
    proof (cases us)
      case Nil
      with 2 show ?thesis by simp
    next
      case (Cons u us')
      with 2 have "u = Reset" by simp
      with Cons 2 have "Reset \<in> set (replicate n Tick)" by simp
      then show ?thesis by simp
    qed
  qed
next
  assume "prefix (replicate n Tick) xs"
  then show "prefix (replicate n Tick) (xs @ Reset # ys)" by (rule prefix_prefix)
qed

lemma sublist_ticks_across_reset:
  "sublist (replicate n Tick) (xs @ Reset # ys) \<longleftrightarrow>
     sublist (replicate n Tick) xs \<or> sublist (replicate n Tick) ys"
proof (induction xs)
  case Nil
  show ?case by (cases n) (auto simp: sublist_Cons_right)
next
  case (Cons x xs)
  have "sublist (replicate n Tick) ((x # xs) @ Reset # ys) \<longleftrightarrow>
        prefix (replicate n Tick) ((x # xs) @ Reset # ys) \<or>
        sublist (replicate n Tick) (xs @ Reset # ys)"
    by (simp add: sublist_Cons_right)
  also have "\<dots> \<longleftrightarrow> prefix (replicate n Tick) (x # xs) \<or>
        sublist (replicate n Tick) xs \<or> sublist (replicate n Tick) ys"
    using Cons.IH prefix_ticks_across_reset [of n "x # xs" ys] by simp
  also have "\<dots> \<longleftrightarrow> sublist (replicate n Tick) (x # xs) \<or> sublist (replicate n Tick) ys"
    by (auto simp: sublist_Cons_right)
  finally show ?case .
qed

lemma start_append:
  "start w (xs @ ys) = (case start w xs of Inl e \<Rightarrow> Inl e | Inr w' \<Rightarrow> start w' ys)"
  by (induction w xs rule: start.induct) (simp_all split: prod.splits option.splits)

lemma ticks_snoc: "replicate c Tick @ Tick # evs = replicate (Suc c) Tick @ evs"
  by (simp add: replicate_app_Cons_same)

lemma start_fires_iff:
  "0 \<le> cnt w \<Longrightarrow> cnt w < timeout w \<Longrightarrow>
   isl (start w evs) \<longleftrightarrow>
     sublist (replicate (nat (timeout w)) Tick) (replicate (nat (cnt w)) Tick @ evs)"
proof (induction evs arbitrary: w)
  case Nil
  then have "nat (cnt w) < nat (timeout w)" by simp
  then show ?case by (simp add: sublist_ticks_short)
next
  case (Cons ev evs)
  have lt: "nat (cnt w) < nat (timeout w)" using Cons.prems by simp
  show ?case
  proof (cases ev)
    case Reset
    have "isl (start w (ev # evs)) \<longleftrightarrow> isl (start (reset w) evs)"
      using Reset by simp
    also have "\<dots> \<longleftrightarrow> sublist (replicate (nat (timeout w)) Tick) evs"
      using Cons.IH [of "reset w"] Cons.prems by (simp add: reset_def)
    also have "\<dots> \<longleftrightarrow> sublist (replicate (nat (timeout w)) Tick)
        (replicate (nat (cnt w)) Tick @ Reset # evs)"
      using lt by (simp add: sublist_ticks_across_reset sublist_ticks_short)
    finally show ?thesis using Reset by simp
  next
    case Tick
    show ?thesis
    proof (cases "cnt w + 1 = timeout w")
      case True
      then have "Suc (nat (cnt w)) = nat (timeout w)" using Cons.prems by simp
      then have "replicate (nat (cnt w)) Tick @ Tick # evs = replicate (nat (timeout w)) Tick @ evs"
        by (simp only: ticks_snoc)
      then have "sublist (replicate (nat (timeout w)) Tick) (replicate (nat (cnt w)) Tick @ Tick # evs)"
        by (simp only: sublist_append_rightI)
      moreover have "isl (start w (ev # evs))"
        using Tick True by (simp add: start_tick_def Let_def)
      ultimately show ?thesis using Tick by (simp only: simp_thms)
    next
      case False
      let ?w = "w\<lparr>cnt := cnt w + 1\<rparr>"
      have st: "start w (ev # evs) = start ?w evs"
        using Tick False by (simp add: start_tick_def Let_def)
      have "nat (cnt ?w) = Suc (nat (cnt w))" using Cons.prems by simp
      then have "replicate (nat (cnt ?w)) Tick @ evs = replicate (nat (cnt w)) Tick @ Tick # evs"
        by (simp only: ticks_snoc)
      moreover have "isl (start ?w evs) \<longleftrightarrow>
          sublist (replicate (nat (timeout ?w)) Tick) (replicate (nat (cnt ?w)) Tick @ evs)"
        using Cons.IH [of ?w] Cons.prems False by simp
      moreover have "timeout ?w = timeout w" by simp
      ultimately show ?thesis using st Tick by (simp only:)
    qed
  qed
qed


lemma start_raises_exc: "start w evs = Inl e \<Longrightarrow> e = exc w"
proof (induction w evs rule: start.induct)
  case (3 w evs)
  then show ?case
    by (cases "cnt w + 1 = timeout w") (simp_all add: start_tick_def Let_def)
qed (simp_all add: reset_def)

lemma start_keeps_timeout: "start w evs = Inr w' \<Longrightarrow> timeout w' = timeout w \<and> exc w' = exc w"
proof (induction w evs rule: start.induct)
  case (3 w evs)
  then show ?case
    by (cases "cnt w + 1 = timeout w") (simp_all add: start_tick_def Let_def)
qed (simp_all add: reset_def)


lemma all_Tick: "Reset \<notin> set evs \<Longrightarrow> x \<in> set evs \<Longrightarrow> x = Tick"
  by (cases x) auto

lemma takeWhile_all_Tick:
  "Reset \<notin> set evs \<Longrightarrow> takeWhile (\<lambda>e. e = Tick) (evs @ ys) = evs @ takeWhile (\<lambda>e. e = Tick) ys"
  by (rule takeWhile_append2) (rule all_Tick)

lemma takeWhile_some_Reset:
  "Reset \<in> set evs \<Longrightarrow> takeWhile (\<lambda>e. e = Tick) (evs @ ys) = takeWhile (\<lambda>e. e = Tick) evs"
  by (rule takeWhile_append1 [of Reset]) simp_all

lemma takeWhile_only_Ticks:
  "Reset \<notin> set evs \<Longrightarrow> takeWhile (\<lambda>e. e = Tick) evs = evs"
  using takeWhile_all_Tick [of evs "[]"] by (simp del: takeWhile_eq_all_conv)

lemma idle_ticks_no_Reset: "Reset \<notin> set evs \<Longrightarrow> idle_ticks evs = length evs"
  by (simp add: idle_ticks_def takeWhile_only_Ticks del: takeWhile_eq_all_conv)

lemma idle_ticks_Reset: "idle_ticks (Reset # evs) = idle_ticks evs"
proof (cases "Reset \<in> set evs")
  case True
  then show ?thesis
    by (simp add: idle_ticks_def takeWhile_some_Reset)
next
  case False
  then show ?thesis
    by (simp add: idle_ticks_def takeWhile_all_Tick takeWhile_only_Ticks del: takeWhile_eq_all_conv)
qed

lemma idle_ticks_Tick:
  "idle_ticks (Tick # evs) = (if Reset \<in> set evs then idle_ticks evs else Suc (length evs))"
proof (cases "Reset \<in> set evs")
  case True
  then show ?thesis
    by (simp add: idle_ticks_def takeWhile_some_Reset)
next
  case False
  then show ?thesis
    by (simp add: idle_ticks_def takeWhile_all_Tick del: takeWhile_eq_all_conv)
qed

lemma start_counts_ticks:
  "start w evs = Inr w' \<Longrightarrow>
   cnt w' = (if Reset \<in> set evs then 0 else cnt w) + int (idle_ticks evs)"
proof (induction w evs rule: start.induct)
  case (1 w)
  then show ?case by (simp add: idle_ticks_def)
next
  case (2 w evs)
  then have "cnt w' = (if Reset \<in> set evs then 0 else cnt (reset w)) + int (idle_ticks evs)"
    by simp
  then show ?case by (simp add: idle_ticks_Reset reset_def)
next
  case (3 w evs)
  show ?case
  proof (cases "cnt w + 1 = timeout w")
    case True
    with "3.prems" show ?thesis by (simp add: start_tick_def Let_def)
  next
    case False
    let ?w = "w\<lparr>cnt := cnt w + 1\<rparr>"
    have tick: "start_tick w = (?w, None)" using False by (simp add: start_tick_def Let_def)
    with "3.prems" have run: "start ?w evs = Inr w'" by simp
    have "cnt w' = (if Reset \<in> set evs then 0 else cnt ?w) + int (idle_ticks evs)"
      using "3.IH" [OF tick [symmetric] refl run] .
    then show ?thesis by (simp add: idle_ticks_Tick idle_ticks_no_Reset)
  qed
qed

text \<open>
  Claim C6. For a positive threshold \<open>N\<close>, the activity \<^verbatim>\<open>start\<close> of a new Watchdog
  completes by raising its exception exactly on the schedules that contain \<open>N\<close>
  ticks in a row with no \<^verbatim>\<open>reset\<close> between them, and it raises nothing else.
  While it has not completed, the counter is the number of ticks since the last
  \<^verbatim>\<open>reset\<close> (or since the start) and is below \<open>N\<close>; the next tick adds one to
  it and raises exactly when that makes it \<open>N\<close>; a \<^verbatim>\<open>reset\<close> puts it back to
  zero and the activity goes on counting from there. A Session whose idle timeout is
  \<open>N\<close> creates, when its connection is established, such a Watchdog with threshold
  \<open>N\<close> and the exception \<^verbatim>\<open>ConnIdleTimeout\<close>.
\<close>

theorem watchdog_fires_after_threshold_idle_ticks:
  assumes "0 < N"
  shows "(isl (start (Watchdog_init N e) evs) \<longleftrightarrow> sublist (replicate (nat N) Tick) evs)
       \<and> (\<forall>x. start (Watchdog_init N e) evs = Inl x \<longrightarrow> x = e)
       \<and> (\<forall>w. start (Watchdog_init N e) evs = Inr w \<longrightarrow>
             cnt w = int (idle_ticks evs) \<and> cnt w < N \<and> timeout w = N \<and>
             cnt (fst (start_tick w)) = cnt w + 1 \<and>
             (snd (start_tick w) = Some e \<longleftrightarrow> cnt w + 1 = N) \<and>
             (snd (start_tick w) = None \<longleftrightarrow> cnt w + 1 \<noteq> N) \<and>
             (isl (start (Watchdog_init N e) (evs @ [Tick])) \<longleftrightarrow> cnt w + 1 = N) \<and>
             cnt (reset w) = 0 \<and>
             start (Watchdog_init N e) (evs @ [Reset]) = Inr (w\<lparr>cnt := 0\<rparr>))
       \<and> (idle_timeout s = N \<longrightarrow>
            watchdog (new_client_connected s) = Some (Watchdog_init N ConnIdleTimeout))"
proof (intro conjI allI impI)
  let ?W = "Watchdog_init N e"
  have W: "cnt ?W = 0" "timeout ?W = N" "exc ?W = e" by (simp_all add: Watchdog_init_def)
  show "isl (start ?W evs) \<longleftrightarrow> sublist (replicate (nat N) Tick) evs"
    using start_fires_iff [of ?W evs] assms W by simp
  show "x = e" if "start ?W evs = Inl x" for x
    using start_raises_exc [OF that] W by simp
  fix w assume run: "start ?W evs = Inr w"
  show c: "cnt w = int (idle_ticks evs)"
    using start_counts_ticks [OF run] W by simp
  show t: "timeout w = N" using start_keeps_timeout [OF run] W by simp
  have x: "exc w = e" using start_keeps_timeout [OF run] W by simp
  have notfired: "\<not> sublist (replicate (nat N) Tick) evs"
    using start_fires_iff [of ?W evs] assms W run by simp
  show lt: "cnt w < N"
  proof (rule ccontr)
    assume "\<not> cnt w < N"
    then have le: "nat N \<le> idle_ticks evs" using c by simp
    define k where "k = idle_ticks evs"
    have tw: "takeWhile (\<lambda>e. e = Tick) (rev evs) = replicate k Tick"
      unfolding k_def idle_ticks_def
      by (rule replicate_length_same [symmetric]) (auto dest: set_takeWhileD)
    have "rev evs = replicate k Tick @ dropWhile (\<lambda>e. e = Tick) (rev evs)"
      using takeWhile_dropWhile_id [of "\<lambda>e. e = Tick" "rev evs"] tw by simp
    then have "evs = rev (dropWhile (\<lambda>e. e = Tick) (rev evs)) @ replicate k Tick"
      by (metis rev_append rev_replicate rev_rev_ident)
    moreover have "replicate k Tick = replicate (k - nat N) Tick @ replicate (nat N) Tick"
      using le by (simp add: k_def replicate_add [symmetric])
    ultimately have "evs = (rev (dropWhile (\<lambda>e. e = Tick) (rev evs)) @ replicate (k - nat N) Tick)
        @ replicate (nat N) Tick @ []"
      by simp
    then have "sublist (replicate (nat N) Tick) evs"
      unfolding sublist_def by blast
    with notfired show False ..
  qed
  show "cnt (fst (start_tick w)) = cnt w + 1" by (simp add: start_tick_def Let_def)
  show "snd (start_tick w) = Some e \<longleftrightarrow> cnt w + 1 = N"
    using t x by (simp add: start_tick_def Let_def)
  show "snd (start_tick w) = None \<longleftrightarrow> cnt w + 1 \<noteq> N"
    using t by (simp add: start_tick_def Let_def)
  show "isl (start ?W (evs @ [Tick])) \<longleftrightarrow> cnt w + 1 = N"
    using run t by (simp add: start_append start_tick_def Let_def)
  show "cnt (reset w) = 0" by (simp add: reset_def)
  show "start ?W (evs @ [Reset]) = Inr (w\<lparr>cnt := 0\<rparr>)"
    using run by (simp add: start_append reset_def)
next
  assume "idle_timeout s = N"
  with assms show "watchdog (new_client_connected s) = Some (Watchdog_init N ConnIdleTimeout)"
    by (simp add: new_client_connected_def Let_def)
qed

theorem watchdog_fires_after_threshold_idle_ticks_witness:
  "(0::int) < 2
   \<and> start (Watchdog_init 2 ConnIdleTimeout) [Tick, Reset, Tick]
       = Inr \<lparr>timeout = 2, cnt = 1, exc = ConnIdleTimeout\<rparr>
   \<and> int (idle_ticks [Tick, Reset, Tick]) = 1
   \<and> \<not> sublist (replicate (nat 2) Tick) [Tick, Reset, Tick]
   \<and> isl (start (Watchdog_init 2 ConnIdleTimeout) ([Tick, Reset, Tick] @ [Tick]))
   \<and> start (Watchdog_init 2 ConnIdleTimeout) ([Tick, Reset, Tick] @ [Reset])
       = Inr \<lparr>timeout = 2, cnt = 0, exc = ConnIdleTimeout\<rparr>
   \<and> \<not> isl (BaseServer_init no_file_exists (''10.0.0.7'', 5353) ''ws://example.com/t'' None None 2)
   \<and> idle_timeout (projr (BaseServer_init no_file_exists (''10.0.0.7'', 5353)
         ''ws://example.com/t'' None None 2)) = 2
   \<and> watchdog (new_client_connected
         (projr (BaseServer_init no_file_exists (''10.0.0.7'', 5353)
            ''ws://example.com/t'' None None 2)))
       = Some (Watchdog_init 2 ConnIdleTimeout)"
proof -
  have pos: "(0::int) < 2" by simp
  have it: "idle_timeout (projr (BaseServer_init no_file_exists (''10.0.0.7'', 5353)
         ''ws://example.com/t'' None None 2)) = 2"
    by (simp add: BaseServer_init_def)
  have r: "\<not> isl (BaseServer_init no_file_exists (''10.0.0.7'', 5353) ''ws://example.com/t'' None None 2)"
    by (simp add: BaseServer_init_def)
  have run: "start (Watchdog_init 2 ConnIdleTimeout) [Tick, Reset, Tick]
      = Inr \<lparr>timeout = 2, cnt = 1, exc = ConnIdleTimeout\<rparr>"
    by (simp add: Watchdog_init_def start_tick_def reset_def Let_def)
  show ?thesis
    using watchdog_fires_after_threshold_idle_ticks
      [OF pos, of ConnIdleTimeout "[Tick, Reset, Tick]"
         "projr (BaseServer_init no_file_exists (''10.0.0.7'', 5353)
            ''ws://example.com/t'' None None 2)"]
    using run it r by simp
qed

section \<open>Properties of the Session\<close>

lemmas step_defs = data_received_def abort_def new_client_connected_def new_client_finally_def
  ws_data_sender_loop_def ws_data_receiver_loop_def sender_take_def reset_watchdog_def Let_def

lemma notifications_append: "notifications (a @ b) = notifications a @ notifications b"
  by (induction a rule: notifications.induct) simp_all

lemma run_append:
  "run s (xs @ ys) =
     (case run s xs of (s', a) \<Rightarrow> (case run s' ys of (s'', a') \<Rightarrow> (s'', a @ a')))"
  by (induction xs arbitrary: s) (simp_all split: prod.splits)

lemma run_append_fst: "fst (run s (xs @ ys)) = fst (run (fst (run s xs)) ys)"
  by (simp add: run_append split: prod.splits)

lemma run_append_snd: "snd (run s (xs @ ys)) = snd (run s xs) @ snd (run (fst (run s xs)) ys)"
  by (simp add: run_append split: prod.splits)

lemma run_Cons_fst: "fst (run s (ev # evs)) = fst (run (fst (step s ev)) evs)"
  by (simp split: prod.splits)

lemma run_Cons_snd: "snd (run s (ev # evs)) = snd (step s ev) @ snd (run (fst (step s ev)) evs)"
  by (simp split: prod.splits)

lemma set_task_frame:
  "client (set_task n t s) = client s"
  "shutdown (set_task n t s) = shutdown s"
  "que (set_task n t s) = que s"
  "phase (set_task n t s) = phase s"
  "ws (set_task n t s) = ws s"
  "ws_sent (set_task n t s) = ws_sent s"
  "tasks (set_task n t s) = tasks s"
  "watchdog (set_task n t s) = watchdog s"
  "logged (set_task n t s) = logged s"
  by (cases n; simp)+

lemma cancel_tasks_frame:
  "client (fold cancel_task ns s) = client s"
  "shutdown (fold cancel_task ns s) = shutdown s"
  "que (fold cancel_task ns s) = que s"
  "phase (fold cancel_task ns s) = phase s"
  "ws (fold cancel_task ns s) = ws s"
  "ws_sent (fold cancel_task ns s) = ws_sent s"
  "tasks (fold cancel_task ns s) = tasks s"
  "watchdog (fold cancel_task ns s) = watchdog s"
  "logged (fold cancel_task ns s) = logged s"
proof (induction ns arbitrary: s)
  case Nil
  { case 1 show ?case by simp }
  { case 2 show ?case by simp }
  { case 3 show ?case by simp }
  { case 4 show ?case by simp }
  { case 5 show ?case by simp }
  { case 6 show ?case by simp }
  { case 7 show ?case by simp }
  { case 8 show ?case by simp }
  { case 9 show ?case by simp }
next
  case (Cons n ns)
  have f: "client (cancel_task n s) = client s" "shutdown (cancel_task n s) = shutdown s"
     "que (cancel_task n s) = que s" "phase (cancel_task n s) = phase s"
     "ws (cancel_task n s) = ws s" "ws_sent (cancel_task n s) = ws_sent s"
     "tasks (cancel_task n s) = tasks s" "watchdog (cancel_task n s) = watchdog s"
     "logged (cancel_task n s) = logged s" for s
    by (simp_all add: cancel_task_def set_task_frame split: option.splits)
  { case 1 show ?case by (simp add: Cons.IH f) }
  { case 2 show ?case by (simp add: Cons.IH f) }
  { case 3 show ?case by (simp add: Cons.IH f) }
  { case 4 show ?case by (simp add: Cons.IH f) }
  { case 5 show ?case by (simp add: Cons.IH f) }
  { case 6 show ?case by (simp add: Cons.IH f) }
  { case 7 show ?case by (simp add: Cons.IH f) }
  { case 8 show ?case by (simp add: Cons.IH f) }
  { case 9 show ?case by (simp add: Cons.IH f) }
qed

lemma new_client_except_frame:
  "client (new_client_except r s) = client s"
  "shutdown (new_client_except r s) = shutdown s"
  "que (new_client_except r s) = que s"
  "phase (new_client_except r s) = phase s"
  "ws (new_client_except r s) = ws s"
  "ws_sent (new_client_except r s) = ws_sent s"
  "tasks (new_client_except r s) = tasks s"
  "sender_task (new_client_except r s) = sender_task s"
  "receiver_task (new_client_except r s) = receiver_task s"
  "watchdog_task (new_client_except r s) = watchdog_task s"
  "watchdog (new_client_except r s) = watchdog s"
  by (induction r s rule: new_client_except.induct; simp)+

lemma step_client: "client (fst (step s ev)) = client s"
  by (induction s ev rule: step.induct)
     (simp_all add: step_defs set_task_frame cancel_tasks_frame new_client_except_frame
        split: sum.splits future.splits option.splits task.splits wait_point.splits
               prod.splits phase.splits list.splits)

lemma step_shutdown:
  "shutdown (fst (step s ev)) =
     (if ev = Call_abort \<and> shutdown s = Pending then Done True else shutdown s)"
  by (induction s ev rule: step.induct)
     (simp_all add: step_defs set_task_frame cancel_tasks_frame new_client_except_frame
        split: sum.splits future.splits option.splits task.splits wait_point.splits
               prod.splits phase.splits list.splits)

lemma step_notifications:
  "notifications (snd (step s ev)) =
     (if phase s \<noteq> Ended \<and> phase (fst (step s ev)) = Ended \<and> shutdown s = Pending
      then [client s] else [])"
  by (induction s ev rule: step.induct)
     (simp_all add: step_defs set_task_frame cancel_tasks_frame new_client_except_frame
        split: sum.splits future.splits option.splits task.splits wait_point.splits
               prod.splits phase.splits list.splits)

lemma step_Ended: "phase s = Ended \<Longrightarrow> phase (fst (step s ev)) = Ended"
  by (induction s ev rule: step.induct)
     (simp_all add: step_defs set_task_frame cancel_tasks_frame new_client_except_frame
        split: sum.splits future.splits option.splits task.splits wait_point.splits
               prod.splits phase.splits list.splits)

lemma run_Ended:
  "phase s = Ended \<Longrightarrow> phase (fst (run s evs)) = Ended \<and> notifications (snd (run s evs)) = []"
proof (induction evs arbitrary: s)
  case Nil
  then show ?case by simp
next
  case (Cons ev evs)
  have "phase (fst (step s ev)) = Ended" using Cons.prems by (rule step_Ended)
  from Cons.IH [OF this] Cons.prems show ?case
    by (simp add: run_Cons_fst run_Cons_snd notifications_append step_notifications del: run.simps)
qed

lemma run_not_Ended:
  "phase (fst (run s evs)) \<noteq> Ended \<Longrightarrow> notifications (snd (run s evs)) = []"
proof (induction evs arbitrary: s)
  case Nil
  then show ?case by simp
next
  case (Cons ev evs)
  have later: "phase (fst (run (fst (step s ev)) evs)) \<noteq> Ended"
    using Cons.prems by (simp add: run_Cons_fst del: run.simps)
  then have "phase (fst (step s ev)) \<noteq> Ended" using run_Ended by blast
  with Cons.IH [OF later] show ?case
    by (simp add: run_Cons_snd notifications_append step_notifications del: run.simps)
qed

lemma run_client: "client (fst (run s evs)) = client s"
  by (induction evs arbitrary: s) (simp_all add: run_Cons_fst step_client del: run.simps(2))

lemma run_shutdown:
  "shutdown (fst (run s evs)) =
     (if Call_abort \<in> set evs \<and> shutdown s = Pending then Done True else shutdown s)"
proof (induction evs arbitrary: s)
  case Nil
  show ?case by simp
next
  case (Cons ev evs)
  show ?case
    using Cons.IH [of "fst (step s ev)"]
    by (cases "ev = Call_abort"; cases "shutdown s = Pending")
       (simp_all add: run_Cons_fst step_shutdown del: run.simps step.simps)
qed

lemma BaseServer_init_fields:
  assumes "BaseServer_init env c u cf cc t = Inr s"
  shows "client s = c"
    and "shutdown s = Pending"
    and "que s = []"
    and "phase s = Scheduled"
    and "ws s = NoConn"
    and "ws_sent s = []"
    and "tasks s = []"
    and "sender_task s = None"
    and "receiver_task s = None"
    and "watchdog_task s = None"
    and "idle_timeout s = t"
  using assms
  by (auto simp: BaseServer_init_def split: if_splits option.splits sum.splits)


lemma BaseServer_init_plain:
  "take 6 u \<noteq> ''wss://'' \<Longrightarrow>
   BaseServer_init env c u cf cc t =
     Inr \<lparr>client = c, shutdown = Pending, que = [],
          uri = u, ssl_param = None, idle_timeout = t,
          phase = Scheduled, ws = NoConn, watchdog = None, tasks = [],
          watchdog_task = None, sender_task = None, receiver_task = None,
          ws_sent = [], logged = []\<rparr>"
  by (simp add: BaseServer_init_def)

lemma all_task_name: "(\<forall>n. P n) \<longleftrightarrow> P WatchdogTask \<and> P SenderTask \<and> P ReceiverTask"
  by (metis task_name.exhaust)

lemma cancel_idem: "cancel (cancel t) = cancel t"
  by (cases t) simp_all

lemma task_stopped_cancel: "task_stopped (cancel t)"
  by (cases t) simp_all

lemma get_task_set_task: "get_task (set_task m t s) n = (if n = m then Some t else get_task s n)"
  by (cases m; cases n) simp_all

lemma get_task_cancel_task:
  "get_task (cancel_task m s) n = (if n = m then map_option cancel (get_task s n) else get_task s n)"
  by (simp add: cancel_task_def get_task_set_task split: option.splits)

lemma get_task_cancel_tasks:
  "get_task (fold cancel_task ns s) n =
     (if n \<in> set ns then map_option cancel (get_task s n) else get_task s n)"
proof (induction ns arbitrary: s)
  case Nil
  show ?case by simp
next
  case (Cons m ns)
  have "get_task (fold cancel_task (m # ns) s) n = get_task (fold cancel_task ns (cancel_task m s)) n"
    by simp
  also have "\<dots> = (if n \<in> set ns then map_option cancel (get_task (cancel_task m s) n)
      else get_task (cancel_task m s) n)"
    by (rule Cons.IH)
  also have "\<dots> = (if n \<in> set (m # ns) then map_option cancel (get_task s n) else get_task s n)"
    by (cases "get_task s n") (auto simp: get_task_cancel_task cancel_idem)
  finally show ?case .
qed

lemma get_task_except: "get_task (new_client_except r s) n = get_task s n"
  by (cases n) (simp_all add: new_client_except_frame)

lemma session_inv_finally:
  assumes "\<forall>n. n \<in> set (tasks s) \<longleftrightarrow> get_task s n \<noteq> None" and "ws s \<noteq> Open"
  shows "session_inv (fst (new_client_finally (new_client_except r s)))"
proof -
  let ?s' = "fst (new_client_finally (new_client_except r s))"
  have ph: "phase ?s' = Ended" by (simp add: new_client_finally_def Let_def)
  have tk: "tasks ?s' = tasks s"
    by (simp add: new_client_finally_def Let_def cancel_tasks_frame new_client_except_frame)
  have w: "ws ?s' = ws s"
    by (simp add: new_client_finally_def Let_def cancel_tasks_frame new_client_except_frame)
  have gt: "get_task ?s' n = (if n \<in> set (tasks s) then map_option cancel (get_task s n) else get_task s n)" for n
  proof -
    have "get_task ?s' n = get_task (fold cancel_task (tasks (new_client_except r s)) (new_client_except r s)) n"
      by (cases n) (simp_all add: new_client_finally_def Let_def)
    then show ?thesis by (simp add: get_task_cancel_tasks get_task_except new_client_except_frame)
  qed
  have a: "n \<in> set (tasks ?s') \<longleftrightarrow> get_task ?s' n \<noteq> None" for n
    using assms(1) by (simp add: tk gt)
  have b: "task_stopped t" if "get_task ?s' n = Some t" for n t
    using that assms(1) by (auto simp: gt task_stopped_cancel split: if_splits)
  show ?thesis
    unfolding session_inv_def early_def racing_or_closing_def
    using a b ph w assms(2) by simp
qed


lemmas inv_defs = session_inv_def early_def racing_or_closing_def all_task_name

lemma session_inv_init: "BaseServer_init env c u cf cc t = Inr s \<Longrightarrow> session_inv s"
  by (simp add: inv_defs BaseServer_init_fields)

lemma step_session_inv:
  assumes inv: "session_inv s"
  shows "session_inv (fst (step s ev))"
proof (cases ev)
  case (Call_data_received d)
  with inv show ?thesis by (simp add: inv_defs data_received_def)
next
  case Call_abort
  with inv show ?thesis by (simp add: inv_defs abort_def split: future.splits)
next
  case NewClientStart
  with inv show ?thesis by (auto simp: inv_defs)
next
  case HandshakeOk
  with inv show ?thesis
    by (cases "idle_timeout s = 0") (auto simp: inv_defs new_client_connected_def Let_def)
next
  case (HandshakeFail e)
  show ?thesis
  proof (cases "phase s = Connecting")
    case True
    from inv True have "\<forall>n. n \<in> set (tasks s) \<longleftrightarrow> get_task s n \<noteq> None" "ws s \<noteq> Open"
      unfolding session_inv_def early_def by auto
    then show ?thesis using HandshakeFail True by (simp add: session_inv_finally)
  next
    case False
    with inv HandshakeFail show ?thesis by simp
  qed
next
  case (TaskStart n)
  with inv show ?thesis
    by (cases n)
       (auto simp: inv_defs ws_data_sender_loop_def ws_data_receiver_loop_def sender_take_def
          reset_watchdog_def split: list.splits)
next
  case QueueItem
  with inv show ?thesis by (auto simp: inv_defs sender_take_def split: list.splits)
next
  case SendOk
  with inv show ?thesis
    by (auto simp: inv_defs ws_data_sender_loop_def sender_take_def reset_watchdog_def
        split: list.splits option.splits task.splits wait_point.splits)
next
  case (SendFail e)
  with inv show ?thesis
    by (auto simp: inv_defs split: option.splits task.splits wait_point.splits)
next
  case (RecvMsg m)
  with inv show ?thesis
    by (auto simp: inv_defs ws_data_receiver_loop_def reset_watchdog_def)
next
  case (RecvFail e)
  with inv show ?thesis by (auto simp: inv_defs)
next
  case SleepOver
  with inv show ?thesis
    by (auto simp: inv_defs start_tick_def Let_def
        split: option.splits task.splits wait_point.splits prod.splits if_splits)
next
  case (WaitReturns a)
  with inv show ?thesis by (auto simp: inv_defs)
next
  case CloseDone
  show ?thesis
  proof (cases "phase s")
    case (Closing r)
    let ?s = "s\<lparr>ws := Closed\<rparr>"
    from inv have "\<forall>n. n \<in> set (tasks ?s) \<longleftrightarrow> get_task ?s n \<noteq> None"
      unfolding session_inv_def by (simp add: all_task_name)
    moreover have "ws ?s \<noteq> Open" by simp
    ultimately have "session_inv (fst (new_client_finally (new_client_except r ?s)))"
      by (rule session_inv_finally)
    with CloseDone Closing show ?thesis by simp
  qed (use inv CloseDone in simp_all)
next
  case (CancelDelivered n)
  with inv show ?thesis
    by (cases n) (auto simp: inv_defs)
qed

lemma run_session_inv: "session_inv s \<Longrightarrow> session_inv (fst (run s evs))"
proof (induction evs arbitrary: s)
  case Nil
  then show ?case by simp
next
  case (Cons ev evs)
  from Cons.prems have "session_inv (fst (step s ev))" by (rule step_session_inv)
  then have "session_inv (fst (run (fst (step s ev)) evs))" by (rule Cons.IH)
  then show ?case by (simp add: run_Cons_fst del: run.simps(2))
qed

lemma buffers_append: "buffers (xs @ ys) = buffers xs @ buffers ys"
  by (induction xs rule: buffers.induct) simp_all

lemma cancel_task_sender:
  "sender_live (sender_task (cancel_task n s)) \<Longrightarrow> sender_task (cancel_task n s) = sender_task s"
  by (cases n; cases "sender_task s"; cases "the (sender_task s)")
     (simp_all add: cancel_task_def split: option.splits)

lemma cancel_tasks_sender:
  "sender_live (sender_task (fold cancel_task ns s)) \<Longrightarrow>
   sender_task (fold cancel_task ns s) = sender_task s"
proof (induction ns arbitrary: s)
  case Nil
  show ?case by simp
next
  case (Cons n ns)
  from Cons.prems have live: "sender_live (sender_task (fold cancel_task ns (cancel_task n s)))"
    by simp
  from Cons.IH [OF live] have eq: "sender_task (fold cancel_task ns (cancel_task n s)) = sender_task (cancel_task n s)" .
  with live have "sender_live (sender_task (cancel_task n s))" by simp
  from cancel_task_sender [OF this] eq show ?case by simp
qed

lemma conserved_frame:
  assumes "conserved s bs"
      and "ws_sent s' = ws_sent s" "que s' = que s"
      and "sender_live (sender_task s') \<Longrightarrow> sender_task s' = sender_task s"
  shows "conserved s' bs"
proof -
  from assms(1) obtain mid where m: "ws_sent s @ mid @ que s = bs" "length mid \<le> 1"
    "sender_live (sender_task s) \<longrightarrow> mid = in_flight (sender_task s)"
    unfolding conserved_def by blast
  have "sender_live (sender_task s') \<longrightarrow> mid = in_flight (sender_task s')"
    using assms(4) m(3) by auto
  with m assms(2,3) show ?thesis unfolding conserved_def by auto
qed

lemma conserved_finally:
  "conserved s bs \<Longrightarrow> conserved (fst (new_client_finally (new_client_except r s'))) bs"
  if "ws_sent s' = ws_sent s" "que s' = que s" "sender_task s' = sender_task s"
  apply (erule conserved_frame)
  using that
    apply (simp_all add: new_client_finally_def Let_def cancel_tasks_frame new_client_except_frame)
  apply (drule cancel_tasks_sender)
  apply (simp add: new_client_except_frame)
  done


lemma conserved_data_received:
  "conserved s bs \<Longrightarrow> conserved (data_received d s) (bs @ [d])"
  unfolding conserved_def data_received_def by auto

lemma conserved_reset_watchdog: "conserved (reset_watchdog s) bs = conserved s bs"
  unfolding conserved_def reset_watchdog_def by simp

lemma conserved_sender_take:
  assumes "conserved s bs" and "in_flight (sender_task s) = []" and "sender_live (sender_task s)"
  shows "conserved (sender_take s) bs"
proof -
  from assms have eq: "ws_sent s @ que s = bs" unfolding conserved_def by auto
  show ?thesis
  proof (cases "que s")
    case Nil
    with eq show ?thesis unfolding conserved_def sender_take_def by simp
  next
    case (Cons b q)
    with eq show ?thesis unfolding conserved_def sender_take_def by simp
  qed
qed

lemma conserved_send_ok:
  assumes "conserved s bs" and "sender_task s = Some (Waiting (WsSend b))"
  shows "conserved (ws_data_sender_loop (s\<lparr>ws_sent := ws_sent s @ [b]\<rparr>)) bs"
proof -
  let ?s = "reset_watchdog (s\<lparr>ws_sent := ws_sent s @ [b]\<rparr>)"
  from assms have eq: "ws_sent s @ [b] @ que s = bs" unfolding conserved_def by auto
  have c: "conserved (?s\<lparr>sender_task := Some (Waiting QueGet)\<rparr>) bs"
    using eq unfolding conserved_def reset_watchdog_def by simp
  have "sender_take ?s = sender_take (?s\<lparr>sender_task := Some (Waiting QueGet)\<rparr>)"
    unfolding sender_take_def by (simp split: list.splits)
  moreover have "conserved (sender_take (?s\<lparr>sender_task := Some (Waiting QueGet)\<rparr>)) bs"
    using c by (rule conserved_sender_take) simp_all
  ultimately show ?thesis unfolding ws_data_sender_loop_def by simp
qed

lemma conserved_send_fail:
  assumes "conserved s bs" and "sender_task s = Some (Waiting (WsSend b))"
  shows "conserved (s\<lparr>sender_task := Some (Raised e)\<rparr>) bs"
proof -
  from assms have "ws_sent s @ [b] @ que s = bs" unfolding conserved_def by auto
  then show ?thesis unfolding conserved_def by (intro exI [of _ "[b]"]) simp
qed

lemma step_conserved:
  assumes c: "conserved s bs" and inv: "session_inv s"
  shows "conserved (fst (step s ev)) (bs @ buffers [ev])"
proof (cases ev)
  case (Call_data_received d)
  then show ?thesis using c by (simp add: conserved_data_received)
next
  case Call_abort
  have "conserved (s\<lparr>shutdown := Done True\<rparr>) bs"
    using c by (rule conserved_frame) simp_all
  with c Call_abort show ?thesis by (simp add: abort_def split: future.splits)
next
  case NewClientStart
  have "conserved (s\<lparr>phase := Connecting, tasks := []\<rparr>) bs"
    using c by (rule conserved_frame) simp_all
  with c NewClientStart show ?thesis by simp
next
  case HandshakeOk
  show ?thesis
  proof (cases "phase s = Connecting")
    case False
    with c HandshakeOk show ?thesis by simp
  next
    case True
    with inv have none: "sender_task s = None"
      unfolding session_inv_def early_def by (auto simp: all_task_name)
    with c have eq: "ws_sent s @ que s = bs" unfolding conserved_def by auto
    have "conserved (new_client_connected s) bs"
      unfolding conserved_def new_client_connected_def Let_def using eq by simp
    with HandshakeOk True show ?thesis by simp
  qed
next
  case (HandshakeFail e)
  with c show ?thesis by (simp add: conserved_finally)
next
  case (TaskStart n)
  show ?thesis
  proof (cases n)
    case WatchdogTask
    have "conserved (s\<lparr>watchdog_task := Some (Waiting Sleep)\<rparr>) bs"
      using c by (rule conserved_frame) simp_all
    with c TaskStart WatchdogTask show ?thesis by simp
  next
    case SenderTask
    have "sender_task s = Some Created \<Longrightarrow> conserved (sender_take (reset_watchdog s)) bs"
      by (rule conserved_sender_take) (simp_all add: c conserved_reset_watchdog, simp_all add: reset_watchdog_def)
    with c TaskStart SenderTask show ?thesis by (simp add: ws_data_sender_loop_def)
  next
    case ReceiverTask
    have "conserved (ws_data_receiver_loop s) bs"
      using c by (rule conserved_frame) (simp_all add: ws_data_receiver_loop_def reset_watchdog_def)
    with c TaskStart ReceiverTask show ?thesis by simp
  qed
next
  case QueueItem
  have "sender_task s = Some (Waiting QueGet) \<Longrightarrow> conserved (sender_take s) bs"
    using c by (rule conserved_sender_take) simp_all
  with c QueueItem show ?thesis by simp
next
  case SendOk
  with c show ?thesis
    by (simp add: conserved_send_ok split: option.splits task.splits wait_point.splits)
next
  case (SendFail e)
  with c show ?thesis
    by (simp add: conserved_send_fail split: option.splits task.splits wait_point.splits)
next
  case (RecvMsg m)
  have "conserved (ws_data_receiver_loop s) bs"
    using c by (rule conserved_frame) (simp_all add: ws_data_receiver_loop_def reset_watchdog_def)
  with c RecvMsg show ?thesis by simp
next
  case (RecvFail e)
  have "conserved (s\<lparr>receiver_task := Some (Raised e)\<rparr>) bs"
    using c by (rule conserved_frame) simp_all
  with c RecvFail show ?thesis by simp
next
  case SleepOver
  have "conserved (s\<lparr>watchdog := w, watchdog_task := t\<rparr>) bs" for w t
    using c by (rule conserved_frame) simp_all
  moreover have "conserved (s\<lparr>watchdog := w\<rparr>) bs" for w
    using c by (rule conserved_frame) simp_all
  ultimately show ?thesis using c SleepOver
    by (simp split: option.splits task.splits wait_point.splits prod.splits)
next
  case (WaitReturns a)
  have "conserved (s\<lparr>phase := p\<rparr>) bs" for p
    using c by (rule conserved_frame) simp_all
  with c WaitReturns show ?thesis by simp
next
  case CloseDone
  with c show ?thesis by (simp add: conserved_finally split: phase.splits)
next
  case (CancelDelivered n)
  have "get_task s n = Some CancelRequested \<Longrightarrow> conserved (set_task n Cancelled s) bs"
    using c by (rule conserved_frame) (cases n; simp)+
  with c CancelDelivered show ?thesis by simp
qed

lemma conserved_init: "BaseServer_init env c u cf cc t = Inr s \<Longrightarrow> conserved s []"
  by (simp add: conserved_def BaseServer_init_fields)

lemma run_conserved:
  "conserved s bs \<Longrightarrow> session_inv s \<Longrightarrow> conserved (fst (run s evs)) (bs @ buffers evs)"
proof (induction evs arbitrary: s bs)
  case Nil
  then show ?case by simp
next
  case (Cons ev evs)
  have c: "conserved (fst (step s ev)) (bs @ buffers [ev])"
    using Cons.prems by (rule step_conserved)
  have i: "session_inv (fst (step s ev))" using Cons.prems(2) by (rule step_session_inv)
  have "buffers (ev # evs) = buffers [ev] @ buffers evs"
    using buffers_append [of "[ev]" evs] by simp
  with Cons.IH [OF c i] show ?case by (simp add: run_Cons_fst del: run.simps(2) buffers.simps)
qed

lemma run_aborted_silent:
  "shutdown s \<noteq> Pending \<Longrightarrow> notifications (snd (run s evs)) = []"
proof (induction evs arbitrary: s)
  case Nil
  show ?case by simp
next
  case (Cons ev evs)
  have "shutdown (fst (step s ev)) \<noteq> Pending" using Cons.prems by (simp add: step_shutdown)
  from Cons.IH [OF this] Cons.prems show ?case
    by (simp add: run_Cons_snd notifications_append step_notifications del: run.simps(2))
qed



lemma drain_queue:
  "sender_task s = Some (Waiting (WsSend b)) \<Longrightarrow>
   ws_sent (fst (run s (replicate (Suc (length (que s))) SendOk))) = ws_sent s @ b # que s \<and>
   que (fst (run s (replicate (Suc (length (que s))) SendOk))) = [] \<and>
   sender_task (fst (run s (replicate (Suc (length (que s))) SendOk))) = Some (Waiting QueGet)"
proof (induction "que s" arbitrary: s b)
  case Nil
  then show ?case
    by (simp add: ws_data_sender_loop_def sender_take_def reset_watchdog_def)
next
  case (Cons a q)
  let ?s = "fst (step s SendOk)"
  have s': "sender_task ?s = Some (Waiting (WsSend a))" "que ?s = q" "ws_sent ?s = ws_sent s @ [b]"
    using Cons.prems Cons.hyps(2) [symmetric]
    by (simp_all add: ws_data_sender_loop_def sender_take_def reset_watchdog_def)
  have "q = que ?s" using s' by simp
  from Cons.hyps(1) [OF this s'(1)] s' Cons.hyps(2) [symmetric]
  show ?case by (simp add: run_Cons_fst del: run.simps(2) step.simps)
qed

lemma run_cancel_delivered:
  "get_task (fst (run s (map CancelDelivered ns))) n =
     (if n \<in> set ns \<and> get_task s n = Some CancelRequested then Some Cancelled else get_task s n)"
proof (induction ns arbitrary: s)
  case Nil
  show ?case by simp
next
  case (Cons m ns)
  have st: "get_task (fst (step s (CancelDelivered m))) n =
      (if n = m \<and> get_task s n = Some CancelRequested then Some Cancelled else get_task s n)"
    by (auto simp: get_task_set_task)
  show ?case
    by (simp add: run_Cons_fst Cons.IH st del: run.simps(2) step.simps)
qed

lemma cancel_not_waiting: "cancel t \<noteq> Waiting w"
  by (cases t) simp_all

lemma step_ws_sent:
  "ws_sent (fst (step s ev)) = ws_sent s @ (if ev = SendOk then in_flight (sender_task s) else [])"
  by (induction s ev rule: step.induct)
     (simp_all add: step_defs set_task_frame cancel_tasks_frame new_client_except_frame
        split: sum.splits future.splits option.splits task.splits wait_point.splits
               prod.splits phase.splits list.splits)

lemma stopped_not_in_flight: "task_stopped x \<Longrightarrow> in_flight (Some x) = []"
  by (cases x) simp_all

lemma run_Ended_ws_sent:
  "session_inv s \<Longrightarrow> phase s = Ended \<Longrightarrow> ws_sent (fst (run s evs)) = ws_sent s"
proof (induction evs arbitrary: s)
  case Nil
  show ?case by simp
next
  case (Cons ev evs)
  have i: "session_inv (fst (step s ev))" using Cons.prems(1) by (rule step_session_inv)
  have e: "phase (fst (step s ev)) = Ended" using Cons.prems(2) by (rule step_Ended)
  have "in_flight (sender_task s) = []"
  proof (cases "sender_task s")
    case None
    then show ?thesis by simp
  next
    case (Some x)
    then have "get_task s SenderTask = Some x" by simp
    with Cons.prems have "task_stopped x" unfolding session_inv_def by blast
    with Some show ?thesis by (simp add: stopped_not_in_flight)
  qed
  then have "ws_sent (fst (step s ev)) = ws_sent s" by (simp add: step_ws_sent)
  with Cons.IH [OF i e] show ?case by (simp add: run_Cons_fst del: run.simps(2))
qed

lemma step_sender_shape:
  assumes "sender_task s \<noteq> Some (Waiting WsRecv)" "sender_task s \<noteq> Some (Waiting Sleep)"
  shows "sender_task (fst (step s ev)) \<noteq> Some (Waiting WsRecv)
       \<and> sender_task (fst (step s ev)) \<noteq> Some (Waiting Sleep)"
proof -
  have fin: "sender_task (fst (new_client_finally (new_client_except r s'))) \<noteq> Some (Waiting w)"
    if "sender_task s' \<noteq> Some (Waiting w)" for r s' w
  proof -
    have "get_task (fst (new_client_finally (new_client_except r s'))) SenderTask
        = (if SenderTask \<in> set (tasks s') then map_option cancel (sender_task s') else sender_task s')"
      using get_task_cancel_tasks [of "tasks (new_client_except r s')" "new_client_except r s'" SenderTask]
      by (simp add: new_client_finally_def Let_def new_client_except_frame)
    moreover have "map_option cancel t \<noteq> Some (Waiting w)" for t
      by (cases t) (simp_all add: cancel_not_waiting)
    ultimately show ?thesis using that by (simp split: if_splits)
  qed
  show ?thesis
  proof (cases ev)
    case (HandshakeFail e)
    with assms fin [of s] show ?thesis by simp
  next
    case CloseDone
    with assms fin [of "s\<lparr>ws := Closed\<rparr>"] show ?thesis by (simp split: phase.splits)
  next
    case (TaskStart n)
    with assms show ?thesis
      by (cases n) (simp_all add: step_defs split: list.splits)
  next
    case (CancelDelivered n)
    with assms show ?thesis by (cases n) simp_all
  next
    case SleepOver
    with assms show ?thesis
      by (simp split: option.splits task.splits wait_point.splits prod.splits)
  qed (use assms in \<open>simp_all add: step_defs
        split: future.splits list.splits option.splits task.splits wait_point.splits\<close>)
qed

lemma run_sender_shape:
  "sender_task s \<noteq> Some (Waiting WsRecv) \<Longrightarrow> sender_task s \<noteq> Some (Waiting Sleep) \<Longrightarrow>
   sender_task (fst (run s evs)) \<noteq> Some (Waiting WsRecv)
   \<and> sender_task (fst (run s evs)) \<noteq> Some (Waiting Sleep)"
proof (induction evs arbitrary: s)
  case Nil
  then show ?case by simp
next
  case (Cons ev evs)
  from step_sender_shape [OF Cons.prems, of ev] Cons.IH
  show ?case by (simp add: run_Cons_fst del: run.simps(2) step.simps)
qed

lemma sender_turns_send_all:
  assumes "sender_task s = Some x" "\<not> task_stopped x"
      and "x \<noteq> Waiting WsRecv" "x \<noteq> Waiting Sleep"
  shows "ws_sent (fst (run s (sender_turns s))) = ws_sent s @ in_flight (sender_task s) @ que s
       \<and> que (fst (run s (sender_turns s))) = []
       \<and> sender_task (fst (run s (sender_turns s))) = Some (Waiting QueGet)"
proof (cases x)
  case Created
  show ?thesis
  proof (cases "que s")
    case Nil
    with Created assms(1) show ?thesis by (simp add: sender_turns_def step_defs)
  next
    case (Cons b q)
    let ?s1 = "fst (step s (TaskStart SenderTask))"
    have s1: "sender_task ?s1 = Some (Waiting (WsSend b))" "que ?s1 = q" "ws_sent ?s1 = ws_sent s"
      using Created assms(1) Cons by (simp_all add: step_defs)
    have t: "sender_turns s = TaskStart SenderTask # replicate (Suc (length (que ?s1))) SendOk"
      using Created assms(1) Cons s1(2) by (simp add: sender_turns_def)
    from drain_queue [OF s1(1)] s1 Cons Created assms(1) show ?thesis
      by (simp only: t run_Cons_fst) simp
  qed
next
  case (Waiting w)
  show ?thesis
  proof (cases w)
    case QueGet
    show ?thesis
    proof (cases "que s")
      case Nil
      with QueGet Waiting assms(1) show ?thesis by (simp add: sender_turns_def)
    next
      case (Cons b q)
      let ?s1 = "fst (step s QueueItem)"
      have s1: "sender_task ?s1 = Some (Waiting (WsSend b))" "que ?s1 = q" "ws_sent ?s1 = ws_sent s"
        using QueGet Waiting assms(1) Cons by (simp_all add: step_defs)
      have t: "sender_turns s = QueueItem # replicate (Suc (length (que ?s1))) SendOk"
        using QueGet Waiting assms(1) Cons s1(2) by (simp add: sender_turns_def)
      from drain_queue [OF s1(1)] s1 Cons QueGet Waiting assms(1) show ?thesis
        by (simp only: t run_Cons_fst) simp
    qed
  next
    case (WsSend b)
    have t: "sender_turns s = replicate (Suc (length (que s))) SendOk"
      using WsSend Waiting assms(1) by (simp add: sender_turns_def)
    from drain_queue [of s b] WsSend Waiting assms(1) show ?thesis
      by (simp only: t) simp
  qed (use assms Waiting in simp_all)
qed (use assms in simp_all)





lemma step_sender_created:
  "sender_task (fst (step s ev)) = None \<Longrightarrow> sender_task s = None"
proof -
  have fin: "sender_task s' = None"
    if "sender_task (fst (new_client_finally (new_client_except r s'))) = None" for r s'
  proof -
    have "get_task (fst (new_client_finally (new_client_except r s'))) SenderTask
        = (if SenderTask \<in> set (tasks s') then map_option cancel (sender_task s') else sender_task s')"
      using get_task_cancel_tasks [of "tasks (new_client_except r s')" "new_client_except r s'" SenderTask]
      by (simp add: new_client_finally_def Let_def new_client_except_frame)
    with that show ?thesis by (simp split: if_splits)
  qed
  assume a: "sender_task (fst (step s ev)) = None"
  show ?thesis
  proof (cases ev)
    case (HandshakeFail e)
    with a fin [of "Some e" s] show ?thesis by (simp split: if_splits)
  next
    case CloseDone
    with a fin [of _ "s\<lparr>ws := Closed\<rparr>"] show ?thesis by (auto split: phase.splits)
  next
    case (TaskStart n)
    with a show ?thesis
      by (cases n) (auto simp: step_defs split: list.splits if_splits)
  next
    case (CancelDelivered n)
    with a show ?thesis by (cases n) (auto split: if_splits)
  next
    case SleepOver
    with a show ?thesis
      by (auto split: option.splits task.splits wait_point.splits prod.splits)
  qed (use a in \<open>auto simp: step_defs
        split: future.splits list.splits option.splits task.splits wait_point.splits if_splits\<close>)
qed

lemma run_nothing_sent_without_sender:
  "sender_task s = None \<longrightarrow> ws_sent s = [] \<Longrightarrow>
   sender_task (fst (run s evs)) = None \<longrightarrow> ws_sent (fst (run s evs)) = []"
proof (induction evs arbitrary: s)
  case Nil
  then show ?case by simp
next
  case (Cons ev evs)
  have "sender_task (fst (step s ev)) = None \<longrightarrow> ws_sent (fst (step s ev)) = []"
  proof
    assume n: "sender_task (fst (step s ev)) = None"
    then have "sender_task s = None" by (rule step_sender_created)
    with Cons.prems show "ws_sent (fst (step s ev)) = []" by (simp add: step_ws_sent)
  qed
  from Cons.IH [OF this] show ?case by (simp add: run_Cons_fst del: run.simps(2) step.simps)
qed

section \<open>Properties of the UDP Listener\<close>

lemma step_internal_actions:
  assumes "internal ev" "shutdown s = Pending"
  shows "(phase s \<noteq> Ended \<and> phase (fst (step s ev)) = Ended \<and> snd (step s ev) = [ConnLost (client s)])
       \<or> ((phase (fst (step s ev)) = Ended \<longleftrightarrow> phase s = Ended) \<and>
          (snd (step s ev) = [] \<or> (\<exists>m. snd (step s ev) = [WriteToTransport m (client s)])))"
proof (cases ev)
  case (HandshakeFail e)
  with assms show ?thesis
    by (simp add: new_client_finally_def Let_def cancel_tasks_frame new_client_except_frame)
next
  case CloseDone
  with assms show ?thesis
    by (cases "phase s")
       (simp_all add: new_client_finally_def Let_def cancel_tasks_frame new_client_except_frame)
next
  case (TaskStart n)
  then show ?thesis
    by (cases n)
       (simp_all add: ws_data_sender_loop_def ws_data_receiver_loop_def sender_take_def
          reset_watchdog_def split: list.splits)
next
  case QueueItem
  then show ?thesis by (simp add: sender_take_def split: list.splits)
next
  case SendOk
  then show ?thesis
    by (simp add: ws_data_sender_loop_def sender_take_def reset_watchdog_def
        split: list.splits option.splits task.splits wait_point.splits)
next
  case (SendFail e)
  then show ?thesis by (simp split: option.splits task.splits wait_point.splits)
next
  case (RecvMsg m)
  then show ?thesis by (simp add: ws_data_receiver_loop_def reset_watchdog_def)
next
  case SleepOver
  then show ?thesis
    by (simp split: option.splits task.splits wait_point.splits prod.splits)
next
  case (CancelDelivered n)
  then show ?thesis by (simp add: set_task_frame)
next
  case HandshakeOk
  then show ?thesis by (simp add: new_client_connected_def Let_def)
qed (use assms in simp_all)

lemma data_received_frame:
  "client (data_received d s) = client s"
  "phase (data_received d s) = phase s"
  "shutdown (data_received d s) = shutdown s"
  by (simp_all add: data_received_def)

lemma udp_inv_init: "udp_inv (UdpServer_init u cf cc t)"
  by (simp add: udp_inv_def UdpServer_init_def)

lemma udp_invI:
  assumes "\<And>a i. base_servers u a = Some i \<Longrightarrow>
             i < length (objects u) \<and> client (objects u ! i) = a \<and> live (objects u ! i)"
      and "\<And>i. i < length (objects u) \<Longrightarrow> live (objects u ! i) \<Longrightarrow>
             base_servers u (client (objects u ! i)) = Some i"
      and "\<And>i. i < length (objects u) \<Longrightarrow> shutdown (objects u ! i) = Pending"
  shows "udp_inv u"
  using assms unfolding udp_inv_def by blast

lemma udp_invD:
  assumes "udp_inv u"
  shows "base_servers u a = Some i \<Longrightarrow>
             i < length (objects u) \<and> client (objects u ! i) = a \<and> live (objects u ! i)"
    and "i < length (objects u) \<Longrightarrow> live (objects u ! i) \<Longrightarrow>
             base_servers u (client (objects u ! i)) = Some i"
    and "i < length (objects u) \<Longrightarrow> shutdown (objects u ! i) = Pending"
  using assms unfolding udp_inv_def by blast+

lemma datagram_received_new:
  assumes "base_servers u a = None" and "args u = (uri', cf, cc, t)"
      and "BaseServer_init env a uri' cf cc t = Inr base"
  shows "base_servers (udp_step u (Datagram env d a)) = (base_servers u)(a \<mapsto> length (objects u))"
    and "objects (udp_step u (Datagram env d a)) = objects u @ [data_received d base]"
    and "errors (udp_step u (Datagram env d a)) = errors u"
    and "sent_to (udp_step u (Datagram env d a)) = sent_to u"
  using assms by (simp_all add: datagram_received_def)

lemma datagram_received_raises:
  assumes "base_servers u a = None" and "args u = (uri', cf, cc, t)"
      and "BaseServer_init env a uri' cf cc t = Inl e"
  shows "udp_step u (Datagram env d a) = u\<lparr>errors := errors u @ [e]\<rparr>"
  using assms by (simp add: datagram_received_def)

lemma datagram_received_known:
  assumes "base_servers u a = Some i"
  shows "base_servers (udp_step u (Datagram env d a)) = base_servers u"
    and "objects (udp_step u (Datagram env d a)) = (objects u)[i := data_received d (objects u ! i)]"
    and "errors (udp_step u (Datagram env d a)) = errors u"
    and "sent_to (udp_step u (Datagram env d a)) = sent_to u"
  using assms by (simp_all add: datagram_received_def)

lemma udp_inv_datagram:
  assumes inv: "udp_inv u"
  shows "udp_inv (udp_step u (Datagram env d a))"
proof (cases "base_servers u a")
  case None
  let ?u' = "udp_step u (Datagram env d a)"
  obtain uri' cf cc t where ar: "args u = (uri', cf, cc, t)" by (cases "args u")
  show ?thesis
  proof (cases "BaseServer_init env a uri' cf cc t")
    case (Inl e)
    have "udp_inv (u\<lparr>errors := errors u @ [e]\<rparr>)" using inv by (simp add: udp_inv_def)
    then show ?thesis by (simp only: datagram_received_raises [OF None ar Inl])
  next
    case (Inr base)
  let ?new = "data_received d base"
  let ?n = "length (objects u)"
  note f = datagram_received_new [OF None ar Inr, of d]
  have new: "client ?new = a" "live ?new" "shutdown ?new = Pending"
    by (simp_all add: data_received_frame BaseServer_init_fields [OF Inr] live_def)
  show ?thesis
  proof (rule udp_invI)
    fix b j assume "base_servers ?u' b = Some j"
    then have e: "((base_servers u)(a \<mapsto> ?n)) b = Some j" by (simp add: f del: udp_step.simps)
    show "j < length (objects ?u')
        \<and> client (objects ?u' ! j) = b
        \<and> live (objects ?u' ! j)"
    proof (cases "b = a")
      case True
      with e have "j = ?n" by simp
      with True new show ?thesis by (simp add: f del: udp_step.simps)
    next
      case False
      with e have "base_servers u b = Some j" by simp
      from udp_invD(1) [OF inv this] show ?thesis by (simp add: f nth_append del: udp_step.simps)
    qed
  next
    fix j assume "j < length (objects ?u')"
      and "live (objects ?u' ! j)"
    then have j: "j < Suc ?n" "live ((objects u @ [?new]) ! j)" by (simp_all add: f del: udp_step.simps)
    show "base_servers ?u' (client (objects ?u' ! j)) = Some j"
    proof (cases "j = ?n")
      case True
      with new show ?thesis by (simp add: f del: udp_step.simps)
    next
      case False
      with j have lt: "j < ?n" and lv: "live (objects u ! j)" by (simp_all add: nth_append)
      from udp_invD(2) [OF inv lt lv] have "base_servers u (client (objects u ! j)) = Some j" .
      moreover from this None have "client (objects u ! j) \<noteq> a" by auto
      ultimately show ?thesis using lt by (simp add: f nth_append del: udp_step.simps)
    qed
  next
    fix j assume "j < length (objects ?u')"
    then have "j < Suc ?n" by (simp add: f del: udp_step.simps)
    then show "shutdown (objects ?u' ! j) = Pending"
      using udp_invD(3) [OF inv, of j] new by (cases "j = ?n") (simp_all add: f nth_append del: udp_step.simps)
  qed
  qed
next
  case (Some i)
  let ?u' = "udp_step u (Datagram env d a)"
  let ?s' = "data_received d (objects u ! i)"
  note f = datagram_received_known [OF Some, of env d]
  have same: "client ((objects u)[i := ?s'] ! j) = client (objects u ! j)"
    "live ((objects u)[i := ?s'] ! j) = live (objects u ! j)"
    "shutdown ((objects u)[i := ?s'] ! j) = shutdown (objects u ! j)"
    if "j < length (objects u)" for j
    using that by (cases "j = i"; simp add: data_received_frame live_def)+
  show ?thesis
  proof (rule udp_invI)
    fix b j assume "base_servers ?u' b = Some j"
    then have "base_servers u b = Some j" by (simp add: f del: udp_step.simps)
    from udp_invD(1) [OF inv this]
    show "j < length (objects ?u')
        \<and> client (objects ?u' ! j) = b
        \<and> live (objects ?u' ! j)"
      by (simp add: f same del: udp_step.simps)
  next
    fix j assume "j < length (objects ?u')"
      and "live (objects ?u' ! j)"
    then have "j < length (objects u)" "live (objects u ! j)" by (simp_all add: f same del: udp_step.simps)
    from udp_invD(2) [OF inv this] this(1)
    show "base_servers ?u' (client (objects ?u' ! j)) = Some j"
      by (simp add: f same del: udp_step.simps)
  next
    fix j assume "j < length (objects ?u')"
    then have "j < length (objects u)" by (simp add: f del: udp_step.simps)
    from udp_invD(3) [OF inv this] this
    show "shutdown (objects ?u' ! j) = Pending" by (simp add: f same del: udp_step.simps)
  qed
qed


lemma udp_step_session:
  assumes inv: "udp_inv u" and i: "i < length (objects u)" and ev: "internal ev"
  shows "objects (udp_step u (SessionEvent i ev)) = (objects u)[i := fst (step (objects u ! i) ev)]"
    and "base_servers (udp_step u (SessionEvent i ev)) =
           (if live (objects u ! i) \<and> \<not> live (fst (step (objects u ! i) ev))
            then (base_servers u)(client (objects u ! i) := None) else base_servers u)"
    and "errors (udp_step u (SessionEvent i ev)) = errors u"
    and "live (fst (step (objects u ! i) ev)) \<Longrightarrow> live (objects u ! i)"
proof -
  let ?s = "objects u ! i"
  let ?s' = "fst (step ?s ev)"
  let ?u = "u\<lparr>objects := (objects u)[i := ?s']\<rparr>"
  have st: "udp_step u (SessionEvent i ev) = fold perform (snd (step ?s ev)) ?u"
    using i ev by (simp split: prod.splits)
  have pend: "shutdown ?s = Pending" using udp_invD(3) [OF inv i] .
  show l: "live ?s' \<Longrightarrow> live ?s"
    using step_Ended [of ?s ev] unfolding live_def by blast
  from step_internal_actions [OF ev pend]
  consider (ends) "phase ?s \<noteq> Ended" "phase ?s' = Ended" "snd (step ?s ev) = [ConnLost (client ?s)]"
    | (quiet) "phase ?s' = Ended \<longleftrightarrow> phase ?s = Ended" "snd (step ?s ev) = []"
    | (writes) m where "phase ?s' = Ended \<longleftrightarrow> phase ?s = Ended"
        "snd (step ?s ev) = [WriteToTransport m (client ?s)]"
    by blast
  then have "objects (udp_step u (SessionEvent i ev)) = (objects u)[i := ?s']
     \<and> base_servers (udp_step u (SessionEvent i ev)) =
           (if live ?s \<and> \<not> live ?s' then (base_servers u)(client ?s := None) else base_servers u)
     \<and> errors (udp_step u (SessionEvent i ev)) = errors u"
  proof cases
    case ends
    then have lv: "live ?s" by (simp add: live_def)
    from udp_invD(2) [OF inv i lv] have "base_servers u (client ?s) = Some i" .
    then have "perform (ConnLost (client ?s)) ?u = ?u\<lparr>base_servers := (base_servers u)(client ?s := None)\<rparr>"
      by (simp add: upstream_lost_def)
    with ends show ?thesis by (simp add: st live_def del: udp_step.simps)
  next
    case quiet
    then show ?thesis by (simp add: st live_def del: udp_step.simps)
  next
    case writes
    then show ?thesis by (simp add: st live_def del: udp_step.simps)
  qed
  then show "objects (udp_step u (SessionEvent i ev)) = (objects u)[i := ?s']"
    and "base_servers (udp_step u (SessionEvent i ev)) =
           (if live ?s \<and> \<not> live ?s' then (base_servers u)(client ?s := None) else base_servers u)"
    and "errors (udp_step u (SessionEvent i ev)) = errors u"
    by blast+
qed

lemma udp_inv_session:
  assumes inv: "udp_inv u"
  shows "udp_inv (udp_step u (SessionEvent i ev))"
proof (cases "i < length (objects u) \<and> internal ev")
  case False
  with inv show ?thesis by auto
next
  case True
  then have i: "i < length (objects u)" and ev: "internal ev" by simp_all
  let ?s = "objects u ! i"
  let ?s' = "fst (step ?s ev)"
  let ?u' = "udp_step u (SessionEvent i ev)"
  note f = udp_step_session [OF inv i ev]
  have cl: "client ?s' = client ?s" by (rule step_client)
  have sh: "shutdown ?s' = Pending"
    using udp_invD(3) [OF inv i] ev by (cases ev) (simp_all add: step_shutdown del: step.simps)
  have obj: "objects ?u' ! j = (if j = i then ?s' else objects u ! j)" if "j < length (objects u)" for j
    using that by (simp add: f(1) del: udp_step.simps)
  have len: "length (objects ?u') = length (objects u)" by (simp add: f(1) del: udp_step.simps)
  show ?thesis
  proof (rule udp_invI)
    fix b j assume e: "base_servers ?u' b = Some j"
    then have old: "base_servers u b = Some j" by (simp add: f(2) del: udp_step.simps split: if_splits)
    note d = udp_invD(1) [OF inv old]
    show "j < length (objects ?u') \<and> client (objects ?u' ! j) = b \<and> live (objects ?u' ! j)"
    proof (cases "j = i")
      case True
      with d have b: "b = client ?s" by simp
      have "live ?s'"
      proof (rule ccontr)
        assume "\<not> live ?s'"
        with d True have "base_servers ?u' b = None" by (simp add: f(2) b del: udp_step.simps)
        with e show False by simp
      qed
      with d True cl show ?thesis by (simp add: len obj del: udp_step.simps)
    next
      case False
      with d show ?thesis by (simp add: len obj del: udp_step.simps)
    qed
  next
    fix j assume j: "j < length (objects ?u')" and lv: "live (objects ?u' ! j)"
    then have jl: "j < length (objects u)" by (simp add: len del: udp_step.simps)
    show "base_servers ?u' (client (objects ?u' ! j)) = Some j"
    proof (cases "j = i")
      case True
      with lv jl have l': "live ?s'" by (simp add: obj del: udp_step.simps)
      then have "live ?s" by (rule f(4))
      from udp_invD(2) [OF inv i this] l' True jl cl show ?thesis by (simp add: obj f(2) del: udp_step.simps)
    next
      case False
      with lv jl have l: "live (objects u ! j)" by (simp add: obj del: udp_step.simps)
      from udp_invD(2) [OF inv jl l] have t: "base_servers u (client (objects u ! j)) = Some j" .
      have "client (objects u ! j) \<noteq> client ?s" if "live ?s"
      proof
        assume "client (objects u ! j) = client ?s"
        with t udp_invD(2) [OF inv i that] have "j = i" by (metis option.inject)
        with False show False by (simp only:)
      qed
      with t False jl show ?thesis by (simp add: obj f(2) del: udp_step.simps)
    qed
  next
    fix j assume "j < length (objects ?u')"
    then have jl: "j < length (objects u)" by (simp add: len del: udp_step.simps)
    with sh udp_invD(3) [OF inv jl] show "shutdown (objects ?u' ! j) = Pending" by (simp add: obj del: udp_step.simps)
  qed
qed

lemma udp_inv_step: "udp_inv u \<Longrightarrow> udp_inv (udp_step u ev)"
  by (cases ev) (simp_all add: udp_inv_datagram udp_inv_session del: udp_step.simps)

lemma udp_inv_run: "udp_inv u \<Longrightarrow> udp_inv (udp_run u evs)"
  by (induction evs arbitrary: u) (simp_all add: udp_inv_step del: udp_step.simps)

lemma udp_step_args: "args (udp_step u ev) = args u"
proof (cases ev)
  case (Datagram env d a)
  then show ?thesis
    by (simp add: datagram_received_def split: option.splits prod.splits sum.splits)
next
  case (SessionEvent i e)
  have p: "args (perform a u) = args u" for a u
    by (cases a) (simp_all add: upstream_lost_def split: option.splits)
  have "args (fold perform acts u) = args u" for acts u
    by (induction acts arbitrary: u) (simp_all add: p)
  with SessionEvent show ?thesis by (simp split: prod.splits)
qed

lemma udp_run_args: "args (udp_run u evs) = args u"
  by (induction evs arbitrary: u) (simp_all add: udp_step_args del: udp_step.simps)

lemma udp_step_no_error:
  assumes inv: "udp_inv u" and ar: "args u = (uri', cf, cc, t)" and ok: "constructs uri' cf cc t ev"
  shows "errors (udp_step u ev) = errors u"
proof (cases ev)
  case (Datagram env d a)
  show ?thesis
  proof (cases "base_servers u a")
    case None
    from ok Datagram obtain base where "BaseServer_init env a uri' cf cc t = Inr base"
      by (cases "BaseServer_init env a uri' cf cc t") simp_all
    from datagram_received_new(3) [OF None ar this] Datagram show ?thesis by (simp only:)
  next
    case (Some i)
    from datagram_received_known(3) [OF Some] Datagram show ?thesis by (simp only:)
  qed
next
  case (SessionEvent i e)
  show ?thesis
  proof (cases "i < length (objects u) \<and> internal e")
    case True
    with udp_step_session(3) [OF inv, of i e] SessionEvent show ?thesis by (simp only:)
  next
    case False
    with SessionEvent show ?thesis by auto
  qed
qed

lemma udp_run_no_error:
  "udp_inv u \<Longrightarrow> args u = (uri', cf, cc, t) \<Longrightarrow> list_all (constructs uri' cf cc t) evs \<Longrightarrow>
   errors (udp_run u evs) = errors u"
proof (induction evs arbitrary: u)
  case Nil
  show ?case by simp
next
  case (Cons ev evs)
  from Cons.prems(3) have ok: "constructs uri' cf cc t ev" "list_all (constructs uri' cf cc t) evs"
    by simp_all
  have "errors (udp_step u ev) = errors u" using Cons.prems(1,2) ok(1) by (rule udp_step_no_error)
  moreover have "udp_inv (udp_step u ev)" using Cons.prems(1) by (rule udp_inv_step)
  moreover have "args (udp_step u ev) = (uri', cf, cc, t)" using Cons.prems(2) by (simp add: udp_step_args)
  ultimately show ?case using Cons.IH ok(2) by (simp del: udp_step.simps)
qed

section \<open>Properties of the password file and the tunnel URL\<close>

lemma ord_less_256: "ord c < 256"
proof -
  have "ord c mod 256 = ord c" unfolding ord_def by simp
  then show ?thesis by (metis mod_less_divisor zero_less_numeral)
qed

lemma ord_literals:
  "ord CHR '':'' = 58" "ord CHR ''/'' = 47" "ord CHR ''?'' = 63" "ord CHR ''#'' = 35"
  "ord CHR '';'' = 59" "ord CHR ''+'' = 43" "ord CHR ''-'' = 45" "ord CHR ''.'' = 46"
  "ord CHR ''_'' = 95" "ord CHR ''~'' = 126" "ord CHR ''%'' = 37" "ord CHR ''='' = 61"
  "ord CHR ''t'' = 116" "ord CHR '' '' = 32" "ord LF = 10" "ord CR = 13" "ord TAB = 9"
  "ord CHR ''['' = 91" "ord CHR '']'' = 93"
  by (simp_all add: ord_def LF_def CR_def TAB_def)

lemma scheme_char_ord:
  "scheme_char c \<Longrightarrow> 43 \<le> ord c \<and> ord c \<le> 122 \<and> ord c \<noteq> 47 \<and> ord c \<noteq> 58 \<and> ord c \<noteq> 59 \<and> ord c \<noteq> 63"
  unfolding scheme_char_def is_alpha_def is_upper_def is_lower_def is_digit_def
  by (auto simp: ord_literals)

lemma always_safe_ord:
  "always_safe c \<Longrightarrow> 45 \<le> ord c \<and> ord c \<le> 126 \<and> ord c \<noteq> 47 \<and> ord c \<noteq> 58 \<and> ord c \<noteq> 59 \<and> ord c \<noteq> 63"
  unfolding always_safe_def is_alpha_def is_upper_def is_lower_def is_digit_def
  by (auto simp: ord_literals)

lemma unsafe_byte_ord: "unsafe_byte c \<Longrightarrow> ord c \<le> 13"
  unfolding unsafe_byte_def by (auto simp: ord_literals)

subsection \<open>The password file\<close>

lemma dropWhile_none: "(\<And>x. x \<in> set xs \<Longrightarrow> \<not> P x) \<Longrightarrow> dropWhile P xs = xs"
  by (cases xs) simp_all

lemma rstrip_line:
  assumes "CR \<notin> set l" "LF \<notin> set l"
  shows "rstrip [CR, LF] l = l" "rstrip [CR, LF] (l @ [LF]) = l"
proof -
  have "dropWhile (\<lambda>c. c \<in> set [CR, LF]) (rev l) = rev l"
    using assms by (intro dropWhile_none) auto
  then show "rstrip [CR, LF] l = l" "rstrip [CR, LF] (l @ [LF]) = l"
    by (simp_all add: rstrip_def)
qed

lemma CR_neq_LF: "CR \<noteq> LF"
  by (simp add: CR_def LF_def)

lemma translate_newlines_no_CR: "CR \<notin> set (translate_newlines s)"
  by (induction s rule: translate_newlines.induct) (auto simp: CR_neq_LF)

lemma translate_newlines_plain:
  "CR \<notin> set a \<Longrightarrow> translate_newlines (a @ c # r) = a @ translate_newlines (c # r)"
proof (induction a)
  case Nil
  show ?case by simp
next
  case (Cons x a)
  then have x: "x \<noteq> CR" and a: "CR \<notin> set a" by auto
  show ?case
  proof (cases a)
    case Nil
    with x show ?thesis by simp
  next
    case (Cons y b)
    with x Cons.IH [OF a] show ?thesis by simp
  qed
qed

lemma translate_newlines_first_line:
  assumes "CR \<notin> set line" and "t = LF \<or> t = CR"
  shows "\<exists>r. translate_newlines (line @ t # rest) = line @ LF # r"
proof -
  have "\<exists>r. translate_newlines (t # rest) = LF # r"
    using assms(2) by (cases rest) (auto simp: CR_neq_LF)
  then show ?thesis using translate_newlines_plain [OF assms(1), of t rest] by auto
qed

lemma takeWhile_first_line:
  "LF \<notin> set line \<Longrightarrow> takeWhile (\<lambda>c. c \<noteq> LF) (line @ LF # r) = line"
  by (induction line) auto

lemma newline_decode_first_line:
  assumes dec: "decode enc d chunk final = Inr (line @ t # rest, d')"
      and line: "CR \<notin> set line" "LF \<notin> set line"
      and t: "t = LF \<or> t = CR \<and> (rest \<noteq> [] \<or> final)"
  shows "\<exists>r st'. newline_decode enc (d, False) chunk final = Inr (line @ LF # r, st')"
proof -
  let ?o = "line @ t # rest"
  let ?hold = "\<not> final \<and> ?o \<noteq> [] \<and> last ?o = CR"
  let ?o2 = "if ?hold then butlast ?o else ?o"
  have nd: "newline_decode enc (d, False) chunk final = Inr (translate_newlines ?o2, (d', ?hold))"
    by (simp add: newline_decode_def dec Let_def)
  have "\<exists>rest2. ?o2 = line @ t # rest2"
  proof (cases ?hold)
    case False
    then show ?thesis by auto
  next
    case True
    then have nf: "\<not> final" and l: "last (line @ t # rest) = CR" by simp_all
    have "rest \<noteq> []"
    proof
      assume "rest = []"
      with l have "t = CR" by simp
      with t nf \<open>rest = []\<close> show False by (simp add: CR_neq_LF)
    qed
    then have "butlast (line @ t # rest) = line @ t # butlast rest"
      by (simp add: butlast_append)
    with True show ?thesis by auto
  qed
  then obtain rest2 where o2: "?o2 = line @ t # rest2" ..
  from t have "t = LF \<or> t = CR" by auto
  from translate_newlines_first_line [OF line(1) this, of rest2]
  obtain r where "translate_newlines (line @ t # rest2) = line @ LF # r" ..
  with nd o2 show ?thesis by (simp only:) blast
qed

lemma readline_loop_first_line:
  assumes dec: "decode enc d chunk (chunk = []) = Inr (line @ t # rest, d')"
      and line: "CR \<notin> set line" "LF \<notin> set line"
      and t: "t = LF \<or> t = CR \<and> (rest \<noteq> [] \<or> chunk = [])"
  shows "readline_loop enc (d, False) (Inr chunk # later) acc = Some (Inr (acc @ line @ [LF]))"
proof -
  from newline_decode_first_line [OF dec line t]
  obtain r st' where nd: "newline_decode enc (d, False) chunk (chunk = []) = Inr (line @ LF # r, st')"
    by blast
  show ?thesis
    by (subst readline_loop.simps)
       (simp add: read1_def nd takeWhile_first_line [OF line(2)])
qed

lemma readline_loop_read_raises:
  "readline_loop enc st (Inl e # later) acc = Some (Inl e)"
  by (subst readline_loop.simps) (simp add: read1_def)

lemma readline_loop_decode_raises:
  "decode enc d chunk (chunk = []) = Inl e \<Longrightarrow>
   readline_loop enc (d, p) (Inr chunk # later) acc = Some (Inl e)"
  by (subst readline_loop.simps) (simp add: read1_def newline_decode_def)

lemma readline_loop_line_aux:
  assumes "readline_loop enc st reads acc = Some y"
  shows "CR \<notin> set acc \<and> LF \<notin> set acc \<longrightarrow>
         (\<forall>l. y = Inr l \<longrightarrow> (\<exists>a. (l = a \<or> l = a @ [LF]) \<and> CR \<notin> set a \<and> LF \<notin> set a))"
proof (rule readline_loop.raw_induct [OF _ assms])
  fix loop :: "'a codec \<Rightarrow> 'a \<times> bool \<Rightarrow> open_file \<Rightarrow> string \<Rightarrow> (exn + string) option"
  fix enc st reads acc y
  assume IH: "\<And>enc st reads acc y. loop enc st reads acc = Some y \<Longrightarrow>
      CR \<notin> set acc \<and> LF \<notin> set acc \<longrightarrow>
      (\<forall>l. y = Inr l \<longrightarrow> (\<exists>a. (l = a \<or> l = a @ [LF]) \<and> CR \<notin> set a \<and> LF \<notin> set a))"
  assume body: "(case read1 reads of
        Inl e \<Rightarrow> Some (Inl e)
      | Inr chunk \<Rightarrow>
          (case newline_decode enc st chunk (chunk = []) of
             Inl e \<Rightarrow> Some (Inl e)
           | Inr (out, st') \<Rightarrow>
               if chunk = [] \<and> out = [] then Some (Inr acc)
               else if LF \<in> set out then Some (Inr (acc @ takeWhile (\<lambda>c. c \<noteq> LF) out @ [LF]))
               else loop enc st' (tl reads) (acc @ out))) = Some y"
  show "CR \<notin> set acc \<and> LF \<notin> set acc \<longrightarrow>
      (\<forall>l. y = Inr l \<longrightarrow> (\<exists>a. (l = a \<or> l = a @ [LF]) \<and> CR \<notin> set a \<and> LF \<notin> set a))"
  proof (intro impI allI)
    fix l assume acc: "CR \<notin> set acc \<and> LF \<notin> set acc" and y: "y = Inr l"
    from body y obtain chunk where c: "read1 reads = Inr chunk"
      by (cases "read1 reads") simp_all
    with body y obtain out st' where nd: "newline_decode enc st chunk (chunk = []) = Inr (out, st')"
      by (cases "newline_decode enc st chunk (chunk = [])") auto
    have out: "CR \<notin> set out"
    proof -
      from nd obtain o2 where "out = translate_newlines o2"
        by (auto simp: newline_decode_def Let_def split: sum.splits prod.splits)
      then show ?thesis by (simp add: translate_newlines_no_CR)
    qed
    consider (eof) "chunk = [] \<and> out = []" | (found) "\<not> (chunk = [] \<and> out = [])" "LF \<in> set out"
      | (again) "\<not> (chunk = [] \<and> out = [])" "LF \<notin> set out"
      by blast
    then show "\<exists>a. (l = a \<or> l = a @ [LF]) \<and> CR \<notin> set a \<and> LF \<notin> set a"
    proof cases
      case eof
      with body y c nd have "l = acc" by simp
      with acc show ?thesis by blast
    next
      case found
      with body y c nd have l: "l = (acc @ takeWhile (\<lambda>c. c \<noteq> LF) out) @ [LF]" by simp
      have "CR \<notin> set (acc @ takeWhile (\<lambda>c. c \<noteq> LF) out)"
        using acc out by (auto dest: set_takeWhileD)
      moreover have "LF \<notin> set (acc @ takeWhile (\<lambda>c. c \<noteq> LF) out)"
        using acc by (auto dest: set_takeWhileD)
      ultimately show ?thesis using l by blast
    next
      case again
      with body y c nd have "loop enc st' (tl reads) (acc @ out) = Some (Inr l)" by simp
      moreover have "CR \<notin> set (acc @ out) \<and> LF \<notin> set (acc @ out)"
        using acc out again(2) by auto
      ultimately show ?thesis using IH by blast
    qed
  qed
qed

lemma readline_loop_line:
  assumes "readline_loop enc st reads acc = Some (Inr l)" and "CR \<notin> set acc" "LF \<notin> set acc"
  shows "\<exists>a. (l = a \<or> l = a @ [LF]) \<and> CR \<notin> set a \<and> LF \<notin> set a"
  using readline_loop_line_aux [OF assms(1)] assms(2,3) by blast

lemma get_passwd_no_newline:
  assumes "get_passwd_from_file enc fs f = Some (Inr passwd)"
  shows "CR \<notin> set passwd \<and> LF \<notin> set passwd"
proof -
  from assms obtain reads l where l: "readline_loop enc (initial enc, False) reads [] = Some (Inr l)"
    and p: "passwd = rstrip [CR, LF] l"
    by (auto simp: get_passwd_from_file_def readline_def split: sum.splits option.splits)
  from readline_loop_line [OF l] obtain a where "l = a \<or> l = a @ [LF]" "CR \<notin> set a" "LF \<notin> set a"
    by auto
  with p rstrip_line [of a] show ?thesis by auto
qed

subsection \<open>Percent-encoding\<close>

lemma hex_digit_safe: "n < 16 \<Longrightarrow> always_safe (hex_digit n)"
proof -
  have "list_all (\<lambda>n. always_safe (hex_digit n)) [0..<16]" by code_simp
  moreover assume "n < 16"
  ultimately show ?thesis by (simp add: list_all_iff)
qed

lemma query_char_ord: "query_char c \<Longrightarrow> 37 \<le> ord c \<and> ord c \<noteq> 35"
  unfolding query_char_def using always_safe_ord [of c] by (auto simp: ord_literals)

lemma quote_byte_chars: "x \<in> set (quote_byte c) \<Longrightarrow> query_char x"
proof -
  have "ord c div 16 < 16" "ord c mod 16 < 16" using ord_less_256 [of c] by simp_all
  then have "always_safe (hex_digit (ord c div 16))" "always_safe (hex_digit (ord c mod 16))"
    by (simp_all add: hex_digit_safe)
  moreover assume "x \<in> set (quote_byte c)"
  ultimately show ?thesis
    by (auto simp: quote_byte_def query_char_def split: if_splits)
qed

lemma quote_plus_chars: "x \<in> set (quote_plus p) \<Longrightarrow> query_char x"
  by (auto simp: quote_plus_def dest: quote_byte_chars)

lemma urlencode_t_chars: "x \<in> set (urlencode_t p) \<Longrightarrow> query_char x"
proof -
  have "always_safe CHR ''t''" by code_simp
  then show "x \<in> set (urlencode_t p) \<Longrightarrow> query_char x"
    by (auto simp: urlencode_t_def query_char_def dest: quote_plus_chars)
qed

lemma urlencode_t_nonempty: "urlencode_t p \<noteq> []"
  by (simp add: urlencode_t_def)

lemma quote_plus_safe: "list_all always_safe s \<Longrightarrow> quote_plus s = s"
proof (induction s)
  case Nil
  show ?case by (simp add: quote_plus_def)
next
  case (Cons c s)
  then have "always_safe c" by simp
  then have "c \<noteq> CHR '' ''" using always_safe_ord [of c] by (auto simp: ord_literals)
  with Cons show ?case by (simp add: quote_plus_def quote_byte_def)
qed

lemma urlencode_secret123: "urlencode_t ''secret123'' = ''t=secret123''"
proof -
  have "list_all always_safe ''secret123''" by code_simp
  then show ?thesis by (simp add: urlencode_t_def quote_plus_safe)
qed

subsection \<open>Splitting at a character\<close>

lemma before_set: "x \<in> set (before c s) \<Longrightarrow> x \<in> set s \<and> x \<noteq> c"
  unfolding before_def by (auto dest: set_takeWhileD)

lemma after_set: "x \<in> set (after c s) \<Longrightarrow> x \<in> set s"
  unfolding after_def by (metis list.set_sel(2) set_dropWhileD tl_Nil)

lemma before_hd: "before c s \<noteq> [] \<Longrightarrow> hd (before c s) = hd s"
  unfolding before_def by (cases s) (auto split: if_splits)

lemma before_append: "c \<notin> set a \<Longrightarrow> before c (a @ c # b) = a"
  unfolding before_def by (induction a) auto

lemma after_append: "c \<notin> set a \<Longrightarrow> after c (a @ c # b) = b"
  unfolding after_def by (induction a) auto

lemma before_after: "c \<in> set s \<Longrightarrow> before c s @ c # after c s = s"
  unfolding before_def after_def by (induction s) auto

lemma clean_subset: "clean s \<Longrightarrow> (\<And>x. x \<in> set t \<Longrightarrow> x \<in> set s) \<Longrightarrow> clean t"
  unfolding clean_def list_all_iff by blast

lemma clean_append [simp]: "clean (a @ b) \<longleftrightarrow> clean a \<and> clean b"
  unfolding clean_def by simp

lemma clean_Cons [simp]: "clean (c # s) \<longleftrightarrow> \<not> unsafe_byte c \<and> clean s"
  unfolding clean_def by simp

lemma clean_Nil [simp]: "clean []"
  unfolding clean_def by simp

lemma clean_sanitize: "clean (sanitize url)"
  unfolding clean_def sanitize_def list_all_iff by auto

lemma sanitize_clean:
  assumes "clean r" and "r = [] \<or> \<not> c0_control_or_space (hd r)"
  shows "sanitize r = r"
proof -
  have "dropWhile c0_control_or_space r = r" using assms(2) by (cases r) auto
  moreover have "filter (\<lambda>c. \<not> unsafe_byte c) r = r"
    using assms(1) unfolding clean_def list_all_iff by (simp add: filter_id_conv)
  ultimately show ?thesis by (simp add: sanitize_def)
qed

subsection \<open>Characters of a scheme\<close>

lemma lower_upper: "is_upper c \<Longrightarrow> is_lower (lower c)"
  unfolding lower_def is_upper_def is_lower_def ord_def by simp

lemma lower_scheme_char: "scheme_char c \<Longrightarrow> scheme_char (lower c)"
  using lower_upper [of c] unfolding scheme_char_def is_alpha_def lower_def by auto

lemma lower_alpha: "is_alpha c \<Longrightarrow> is_alpha (lower c)"
  using lower_upper [of c] unfolding is_alpha_def lower_def by auto

lemma lower_idem: "lower (lower c) = lower c"
proof (cases "is_upper c")
  case True
  then have "is_lower (lower c)" by (rule lower_upper)
  then have "\<not> is_upper (lower c)" unfolding is_lower_def is_upper_def by simp
  then show ?thesis by (simp add: lower_def)
next
  case False
  then show ?thesis by (simp add: lower_def)
qed

lemma scheme_char_facts:
  assumes "scheme_char c"
  shows "c \<noteq> CHR '':''" "c \<noteq> CHR ''/''" "c \<noteq> CHR ''?''" "c \<noteq> CHR ''#''" "c \<noteq> CHR '';''"
    "\<not> unsafe_byte c" "\<not> c0_control_or_space c"
  using scheme_char_ord [OF assms] unsafe_byte_ord [of c]
  by (auto simp: ord_literals c0_control_or_space_def)

lemma scheme_ok_chars: "scheme_ok sch \<Longrightarrow> x \<in> set sch \<Longrightarrow> scheme_char x"
  unfolding scheme_ok_def list_all_iff by auto

lemma scheme_ok_clean: "scheme_ok sch \<Longrightarrow> clean sch"
  unfolding clean_def list_all_iff using scheme_ok_chars scheme_char_facts(6) by blast

lemma split_scheme_props:
  assumes "split_scheme url = (sch, rest)"
  shows "scheme_ok sch" and "\<And>x. x \<in> set rest \<Longrightarrow> x \<in> set url"
proof -
  let ?pre = "before CHR '':'' url"
  show "scheme_ok sch"
  proof (cases "CHR '':'' \<in> set url \<and> ?pre \<noteq> [] \<and> is_alpha (hd url) \<and> list_all scheme_char ?pre")
    case True
    then have sch: "sch = map lower ?pre" using assms by (simp add: split_scheme_def)
    have "hd sch = lower (hd url)" using True sch by (simp add: hd_map before_hd)
    then have "is_alpha (hd sch)" using True by (simp add: lower_alpha)
    moreover have "list_all scheme_char sch"
      using True sch by (simp add: list_all_iff lower_scheme_char)
    moreover have "map lower sch = sch" by (simp add: sch lower_idem)
    ultimately show ?thesis by (simp add: scheme_ok_def)
  next
    case False
    then have "sch = []" using assms by (auto simp: split_scheme_def)
    then show ?thesis by (simp add: scheme_ok_def)
  qed
  show "x \<in> set rest \<Longrightarrow> x \<in> set url" for x
    using assms by (auto simp: split_scheme_def dest: after_set split: if_splits)
qed

subsection \<open>What urlsplit returns\<close>

lemma netloc_delim_iff: "netloc_delim c \<longleftrightarrow> c = CHR ''/'' \<or> c = CHR ''?'' \<or> c = CHR ''#''"
  by (auto simp: netloc_delim_def)

lemma splitnetloc_props:
  assumes "splitnetloc url = (nl, rest)"
  shows "list_all (\<lambda>c. \<not> netloc_delim c) nl"
    and "rest = [] \<or> netloc_delim (hd rest)"
    and "\<And>x. x \<in> set nl \<Longrightarrow> x \<in> set url"
    and "\<And>x. x \<in> set rest \<Longrightarrow> x \<in> set url"
proof -
  from assms have nl: "nl = takeWhile (\<lambda>c. \<not> netloc_delim c) (drop 2 url)"
    and rest: "rest = dropWhile (\<lambda>c. \<not> netloc_delim c) (drop 2 url)"
    by (simp_all add: splitnetloc_def)
  show "list_all (\<lambda>c. \<not> netloc_delim c) nl"
    unfolding nl list_all_iff by (auto dest: set_takeWhileD)
  show "rest = [] \<or> netloc_delim (hd rest)"
    unfolding rest using hd_dropWhile [of "\<lambda>c. \<not> netloc_delim c" "drop 2 url"] by auto
  show "x \<in> set nl \<Longrightarrow> x \<in> set url" for x
    unfolding nl by (auto dest!: set_takeWhileD in_set_dropD)
  show "x \<in> set rest \<Longrightarrow> x \<in> set url" for x
    unfolding rest by (auto dest!: set_dropWhileD in_set_dropD)
qed

text \<open>The two splits of \<^verbatim>\<open>urlsplit\<close> that follow the network location.\<close>

lemma split_fragment_query:
  assumes "(if CHR ''#'' \<in> set u2 then (before CHR ''#'' u2, after CHR ''#'' u2) else (u2, [])) = (u3, f)"
      and "(if CHR ''?'' \<in> set u3 then (before CHR ''?'' u3, after CHR ''?'' u3) else (u3, [])) = (p, q)"
  shows "CHR ''?'' \<notin> set p" "CHR ''#'' \<notin> set p" "CHR ''#'' \<notin> set q"
    and "\<And>x. x \<in> set p \<Longrightarrow> x \<in> set u2"
    and "\<And>x. x \<in> set q \<Longrightarrow> x \<in> set u2"
    and "\<And>x. x \<in> set f \<Longrightarrow> x \<in> set u2"
    and "p \<noteq> [] \<Longrightarrow> hd p = hd u2"
proof -
  have u3: "CHR ''#'' \<notin> set u3" "\<And>x. x \<in> set u3 \<Longrightarrow> x \<in> set u2" "u3 \<noteq> [] \<Longrightarrow> hd u3 = hd u2"
    using assms(1) by (auto split: if_splits dest: before_set simp: before_hd)
  have p: "CHR ''?'' \<notin> set p" "\<And>x. x \<in> set p \<Longrightarrow> x \<in> set u3" "p \<noteq> [] \<Longrightarrow> hd p = hd u3"
    "p \<noteq> [] \<Longrightarrow> u3 \<noteq> []"
    using assms(2) by (auto split: if_splits dest: before_set simp: before_hd)
  have q: "\<And>x. x \<in> set q \<Longrightarrow> x \<in> set u3"
    using assms(2) by (auto split: if_splits dest: after_set)
  show "CHR ''?'' \<notin> set p" by (rule p(1))
  show "CHR ''#'' \<notin> set p" using p(2) u3(1) by blast
  show "CHR ''#'' \<notin> set q" using q u3(1) by blast
  show "x \<in> set p \<Longrightarrow> x \<in> set u2" for x using p(2) u3(2) by blast
  show "x \<in> set q \<Longrightarrow> x \<in> set u2" for x using q u3(2) by blast
  show "x \<in> set f \<Longrightarrow> x \<in> set u2" for x
    using assms(1) by (auto split: if_splits dest: after_set)
  show "p \<noteq> [] \<Longrightarrow> hd p = hd u2" using p(3,4) u3(3) by simp
qed

lemma urlsplit_props:
  assumes "urlsplit valid url = Inr (sch, nl, p, q, f)"
  shows "scheme_ok sch"
    and "list_all (\<lambda>c. \<not> netloc_delim c) nl"
    and "netloc_accepted valid nl"
    and "CHR ''?'' \<notin> set p" and "CHR ''#'' \<notin> set p" and "CHR ''#'' \<notin> set q"
    and "clean nl" and "clean p" and "clean q" and "clean f"
    and "nl \<noteq> [] \<Longrightarrow> p = [] \<or> hd p = CHR ''/''"
proof -
  obtain sch' u1 where ss: "split_scheme (sanitize url) = (sch', u1)"
    by (cases "split_scheme (sanitize url)")
  obtain nl' u2 where sn: "(if take 2 u1 = ''//'' then splitnetloc u1 else ([], u1)) = (nl', u2)"
    by (cases "if take 2 u1 = ''//'' then splitnetloc u1 else ([], u1)")
  obtain u3 f' where sf: "(if CHR ''#'' \<in> set u2 then (before CHR ''#'' u2, after CHR ''#'' u2)
      else (u2, [])) = (u3, f')"
    by (cases "if CHR ''#'' \<in> set u2 then (before CHR ''#'' u2, after CHR ''#'' u2) else (u2, [])")
  obtain p' q' where sq: "(if CHR ''?'' \<in> set u3 then (before CHR ''?'' u3, after CHR ''?'' u3)
      else (u3, [])) = (p', q')"
    by (cases "if CHR ''?'' \<in> set u3 then (before CHR ''?'' u3, after CHR ''?'' u3) else (u3, [])")
  from assms have acc: "netloc_accepted valid nl'"
    and res: "(sch, nl, p, q, f) = (sch', nl', p', q', f')"
    unfolding urlsplit_def by (simp_all only: ss sn sf sq prod.case split: if_splits) simp_all
  then have eq: "sch = sch'" "nl = nl'" "p = p'" "q = q'" "f = f'" by simp_all
  note fq = split_fragment_query [OF sf sq]
  have c1: "clean u1"
    using clean_sanitize [of url] split_scheme_props(2) [OF ss] by (rule clean_subset)
  have nlp: "list_all (\<lambda>c. \<not> netloc_delim c) nl'" "\<And>x. x \<in> set nl' \<Longrightarrow> x \<in> set u1"
    "\<And>x. x \<in> set u2 \<Longrightarrow> x \<in> set u1" "nl' \<noteq> [] \<Longrightarrow> u2 = [] \<or> netloc_delim (hd u2)"
    using sn splitnetloc_props [of u1 nl' u2] by (auto split: if_splits)
  show "scheme_ok sch" unfolding eq using ss by (rule split_scheme_props(1))
  show "list_all (\<lambda>c. \<not> netloc_delim c) nl" unfolding eq by (rule nlp(1))
  show "netloc_accepted valid nl" unfolding eq by (rule acc)
  show "CHR ''?'' \<notin> set p" "CHR ''#'' \<notin> set p" "CHR ''#'' \<notin> set q"
    unfolding eq by (rule fq)+
  show "clean nl" unfolding eq using c1 nlp(2) by (rule clean_subset)
  have c2: "clean u2" using c1 nlp(3) by (rule clean_subset)
  show "clean p" unfolding eq using c2 fq(4) by (rule clean_subset)
  show "clean q" unfolding eq using c2 fq(5) by (rule clean_subset)
  show "clean f" unfolding eq using c2 fq(6) by (rule clean_subset)
  show "p = [] \<or> hd p = CHR ''/''" if "nl \<noteq> []"
  proof (cases "p = []")
    case False
    then have hd: "hd p = hd u2" using fq(7) eq by simp
    have mem: "hd p \<in> set p" using False by (rule hd_in_set)
    have "hd p \<in> set u2" using mem fq(4) eq by simp
    then have "u2 \<noteq> []" by auto
    with nlp(4) that eq have "netloc_delim (hd u2)" by simp
    with hd have "netloc_delim (hd p)" by simp
    moreover have "hd p \<noteq> CHR ''?''" "hd p \<noteq> CHR ''#''"
      using mem fq(1,2) eq by auto
    ultimately show ?thesis by (simp add: netloc_delim_iff)
  qed simp
qed

subsection \<open>Parsing what urlunsplit wrote\<close>

lemma takeWhile_stops:
  assumes "\<And>x. x \<in> set a \<Longrightarrow> P x" and "b = [] \<or> \<not> P (hd b)"
  shows "takeWhile P (a @ b) = a" and "dropWhile P (a @ b) = b"
proof -
  have "takeWhile P b = []" "dropWhile P b = b" using assms(2) by (cases b; auto)+
  then show "takeWhile P (a @ b) = a" "dropWhile P (a @ b) = b"
    using assms(1) by (simp_all add: takeWhile_append2 dropWhile_append2)
qed

lemma not_alpha_slash: "\<not> is_alpha CHR ''/''"
  by (simp add: is_alpha_def is_upper_def is_lower_def ord_literals)

lemma not_c0_slash: "\<not> c0_control_or_space CHR ''/''"
  by (simp add: c0_control_or_space_def ord_literals)

lemma not_unsafe_literals:
  "\<not> unsafe_byte CHR ''/''" "\<not> unsafe_byte CHR '':''" "\<not> unsafe_byte CHR ''?''"
  "\<not> unsafe_byte CHR ''#''" "\<not> unsafe_byte CHR '';''"
  using unsafe_byte_ord [of "CHR ''/''"] unsafe_byte_ord [of "CHR '':''"]
    unsafe_byte_ord [of "CHR ''?''"] unsafe_byte_ord [of "CHR ''#''"] unsafe_byte_ord [of "CHR '';''"]
  by (auto simp: ord_literals)

lemma urlsplit_urlunsplit:
  assumes sch: "scheme_ok sch"
      and nl: "nl \<noteq> []" "list_all (\<lambda>c. \<not> netloc_delim c) nl" "netloc_accepted valid nl"
      and u: "CHR ''?'' \<notin> set u" "CHR ''#'' \<notin> set u" "u = [] \<or> hd u = CHR ''/''"
      and q: "q \<noteq> []" "CHR ''#'' \<notin> set q"
      and cl: "clean nl" "clean u" "clean q" "clean f"
  shows "urlsplit valid (urlunsplit (sch, nl, u, q, f)) = Inr (sch, nl, u, q, f)"
proof -
  define F where "F = (if f \<noteq> [] then CHR ''#'' # f else [])"
  define uq where "uq = u @ CHR ''?'' # q"
  define tail where "tail = uq @ F"
  define body where "body = CHR ''/'' # CHR ''/'' # nl @ tail"
  define r where "r = (if sch \<noteq> [] then sch @ CHR '':'' # body else body)"
  have keep: "(if u \<noteq> [] \<and> take 1 u \<noteq> ''/'' then ''/'' @ u else u) = u"
    using u(3) by (cases u) auto
  have unsplit: "urlunsplit (sch, nl, u, q, f) = r"
    unfolding urlunsplit_def r_def body_def tail_def uq_def F_def Let_def prod.case keep
    using nl(1) q(1) by simp
  have clean_r: "clean r"
    unfolding r_def body_def tail_def uq_def F_def
    using cl scheme_ok_clean [OF sch] not_unsafe_literals by simp
  have hd_r: "\<not> c0_control_or_space (hd r)"
  proof (cases "sch = []")
    case True
    then show ?thesis by (simp add: r_def body_def not_c0_slash)
  next
    case False
    then have "hd r = hd sch" "hd sch \<in> set sch" by (simp_all add: r_def)
    then show ?thesis using scheme_ok_chars [OF sch] scheme_char_facts(7) by auto
  qed
  have san: "sanitize r = r" using clean_r hd_r by (intro sanitize_clean) simp_all
  have ss: "split_scheme r = (sch, body)"
  proof (cases "sch = []")
    case True
    then have "r = body" "hd r = CHR ''/''" by (simp_all add: r_def body_def)
    then show ?thesis using True by (simp add: split_scheme_def not_alpha_slash)
  next
    case False
    have nc: "CHR '':'' \<notin> set sch" using scheme_ok_chars [OF sch] scheme_char_facts(1) by blast
    have r: "r = sch @ CHR '':'' # body" using False by (simp add: r_def)
    have b: "before CHR '':'' r = sch" unfolding r using nc by (rule before_append)
    have a: "after CHR '':'' r = body" unfolding r using nc by (rule after_append)
    have "CHR '':'' \<in> set r" by (simp add: r)
    moreover have "is_alpha (hd r)" "list_all scheme_char sch" "map lower sch = sch"
      using sch False by (simp_all add: scheme_ok_def r)
    ultimately show ?thesis using False by (simp add: split_scheme_def a b)
  qed
  have tail_ne: "tail \<noteq> []" "netloc_delim (hd tail)"
    using u(3) by (cases u; simp add: tail_def uq_def netloc_delim_iff)+
  have sn: "(if take 2 body = ''//'' then splitnetloc body else ([], body)) = (nl, tail)"
  proof -
    have "take 2 body = ''//''" by (simp add: body_def)
    moreover have "drop 2 body = nl @ tail" by (simp add: body_def)
    moreover have "takeWhile (\<lambda>c. \<not> netloc_delim c) (nl @ tail) = nl"
      "dropWhile (\<lambda>c. \<not> netloc_delim c) (nl @ tail) = tail"
      using nl(2) tail_ne
        takeWhile_stops [of nl "\<lambda>c. \<not> netloc_delim c" tail]
      by (simp_all only: list_all_iff) blast+
    ultimately show ?thesis by (simp add: splitnetloc_def)
  qed
  have nh: "CHR ''#'' \<notin> set uq" using u(2) q(2) by (simp add: uq_def)
  have sf: "(if CHR ''#'' \<in> set tail then (before CHR ''#'' tail, after CHR ''#'' tail)
      else (tail, [])) = (uq, f)"
  proof (cases "f = []")
    case True
    then show ?thesis using nh by (simp add: tail_def F_def)
  next
    case False
    then have t: "tail = uq @ CHR ''#'' # f" by (simp add: tail_def F_def)
    have "before CHR ''#'' tail = uq" "after CHR ''#'' tail = f"
      unfolding t using nh by (rule before_append, rule after_append)
    then show ?thesis by (simp add: t)
  qed
  have sq: "(if CHR ''?'' \<in> set uq then (before CHR ''?'' uq, after CHR ''?'' uq)
      else (uq, [])) = (u, q)"
  proof -
    have "before CHR ''?'' uq = u" "after CHR ''?'' uq = q"
      unfolding uq_def using u(1) by (rule before_append, rule after_append)
    then show ?thesis by (simp add: uq_def)
  qed
  show ?thesis
    unfolding unsplit urlsplit_def san ss prod.case sn sf sq using nl(3) by simp
qed

subsection \<open>Parameters of the last path segment\<close>

lemma last_segment_decomp:
  defines "P \<equiv> \<lambda>c. c \<noteq> CHR ''/''"
  shows "take (length url - length (last_segment url)) url = rev (dropWhile P (rev url))"
    and "rev (dropWhile P (rev url)) @ last_segment url = url"
    and "CHR ''/'' \<notin> set (last_segment url)"
    and "rev (dropWhile P (rev url)) = [] \<or> last (rev (dropWhile P (rev url))) = CHR ''/''"
proof -
  let ?d = "rev (dropWhile P (rev url))"
  have seg: "last_segment url = rev (takeWhile P (rev url))" by (simp add: last_segment_def P_def)
  have "rev (takeWhile P (rev url) @ dropWhile P (rev url)) = url" by simp
  then show eq: "?d @ last_segment url = url" unfolding seg by (simp only: rev_append)
  have "length url = length ?d + length (last_segment url)"
    using arg_cong [OF eq, of length] by simp
  then have "take (length url - length (last_segment url)) (?d @ last_segment url) = ?d" by simp
  then show "take (length url - length (last_segment url)) url = ?d" by (simp only: eq)
  show "CHR ''/'' \<notin> set (last_segment url)"
    unfolding seg by (auto simp: P_def dest: set_takeWhileD)
  show "?d = [] \<or> last ?d = CHR ''/''"
  proof (cases "dropWhile P (rev url)")
    case Nil
    then show ?thesis by simp
  next
    case (Cons x xs)
    have "\<not> P (hd (dropWhile P (rev url)))" by (rule hd_dropWhile) (simp add: Cons)
    then have "\<not> P x" unfolding Cons by simp
    then have "x = CHR ''/''" by (simp add: P_def)
    then show ?thesis by (simp add: Cons)
  qed
qed

lemma last_segment_append:
  assumes "CHR ''/'' \<notin> set b" and "d = [] \<or> last d = CHR ''/''"
  shows "last_segment (d @ b) = b"
proof -
  have "takeWhile (\<lambda>c. c \<noteq> CHR ''/'') (rev b @ rev d) = rev b"
  proof (rule takeWhile_stops(1))
    show "x \<in> set (rev b) \<Longrightarrow> x \<noteq> CHR ''/''" for x using assms(1) by auto
    show "rev d = [] \<or> \<not> hd (rev d) \<noteq> CHR ''/''"
      using assms(2) by (cases "d = []") (simp_all add: hd_rev)
  qed
  then show ?thesis by (simp add: last_segment_def)
qed

lemma splitparams_cases:
  obtains (none) "CHR '';'' \<notin> set (last_segment url)" "splitparams url = (url, [])"
  | (some) d b a where "url = d @ b @ CHR '';'' # a" "d = [] \<or> last d = CHR ''/''"
      "CHR ''/'' \<notin> set b" "CHR '';'' \<notin> set b" "splitparams url = (d @ b, a)"
proof (cases "CHR '';'' \<in> set (last_segment url)")
  case False
  then have "splitparams url = (url, [])" by (simp add: splitparams_def Let_def)
  with False show ?thesis by (rule none)
next
  case True
  let ?seg = "last_segment url"
  let ?d = "rev (dropWhile (\<lambda>c. c \<noteq> CHR ''/'') (rev url))"
  let ?b = "before CHR '';'' ?seg"
  let ?a = "after CHR '';'' ?seg"
  note dc = last_segment_decomp [of url]
  have seg: "?b @ CHR '';'' # ?a = ?seg" using True by (rule before_after)
  have "url = ?d @ ?b @ CHR '';'' # ?a" using dc(2) seg by simp
  moreover have "CHR ''/'' \<notin> set ?b" "CHR '';'' \<notin> set ?b"
    using dc(3) by (auto dest: before_set)
  moreover have "splitparams url = (?d @ ?b, ?a)"
    using True by (simp add: splitparams_def Let_def dc(1))
  ultimately show ?thesis using dc(4) by (intro some [of ?d ?b ?a]) simp_all
qed

lemma splitparams_roundtrip:
  assumes "(if C \<and> CHR '';'' \<in> set p0 then splitparams p0 else (p0, [])) = (p, prm)"
  defines "u \<equiv> (if prm \<noteq> [] then p @ CHR '';'' # prm else p)"
  shows "(if C \<and> CHR '';'' \<in> set u then splitparams u else (u, [])) = (p, prm)"
    and "prefix u p0"
proof -
  have "(if C \<and> CHR '';'' \<in> set u then splitparams u else (u, [])) = (p, prm) \<and> prefix u p0"
  proof (cases "C \<and> CHR '';'' \<in> set p0")
    case False
    with assms(1) have "p = p0" "prm = []" by auto
    then have "u = p0" by (simp add: u_def)
    with False \<open>p = p0\<close> \<open>prm = []\<close> show ?thesis by auto
  next
    case True
    with assms(1) have sp: "splitparams p0 = (p, prm)" by simp
    show ?thesis
    proof (cases p0 rule: splitparams_cases)
      case none
      with sp have "p = p0" "prm = []" by simp_all
      then have "u = p0" by (simp add: u_def)
      with True sp show ?thesis by simp
    next
      case (some d b a)
      with sp have pp: "p = d @ b" "prm = a" by simp_all
      show ?thesis
      proof (cases "a = []")
        case False
        then have "u = p0" using some(1) pp by (simp add: u_def)
        with True sp show ?thesis by simp
      next
        case Nil: True
        then have u: "u = d @ b" using pp by (simp add: u_def)
        have "last_segment u = b" unfolding u using some(3,2) by (rule last_segment_append)
        then have "splitparams u = (u, [])"
          using some(4) by (simp add: splitparams_def Let_def)
        moreover have "prefix u p0" unfolding u some(1) by (simp add: prefix_def)
        ultimately show ?thesis using pp Nil u by simp
      qed
    qed
  qed
  then show "(if C \<and> CHR '';'' \<in> set u then splitparams u else (u, [])) = (p, prm)"
    and "prefix u p0" by simp_all
qed

subsection \<open>The URL with the credential\<close>

lemma urlparse_split:
  assumes "urlparse valid url = Inr c"
  obtains p0 where "urlsplit valid url = Inr (scheme c, netloc c, p0, query c, fragment c)"
    and "(if scheme c \<in> set uses_params \<and> CHR '';'' \<in> set p0 then splitparams p0 else (p0, []))
          = (path c, params c)"
proof -
  from assms obtain sch nl p0 q f where sp: "urlsplit valid url = Inr (sch, nl, p0, q, f)"
    unfolding urlparse_def by (auto split: sum.splits)
  obtain p prm where pp: "(if sch \<in> set uses_params \<and> CHR '';'' \<in> set p0 then splitparams p0
      else (p0, [])) = (p, prm)"
    by (cases "if sch \<in> set uses_params \<and> CHR '';'' \<in> set p0 then splitparams p0 else (p0, [])")
  from assms have c: "c = \<lparr>scheme = sch, netloc = nl, path = p, params = prm, query = q, fragment = f\<rparr>"
    unfolding urlparse_def by (simp only: sp sum.case prod.case pp) simp
  show ?thesis
  proof (rule that [of p0])
    show "urlsplit valid url = Inr (scheme c, netloc c, p0, query c, fragment c)"
      by (simp add: c sp)
    show "(if scheme c \<in> set uses_params \<and> CHR '';'' \<in> set p0 then splitparams p0 else (p0, []))
          = (path c, params c)"
      using pp by (simp add: c)
  qed
qed

lemma urlencode_t_props:
  "urlencode_t p \<noteq> []" "CHR ''#'' \<notin> set (urlencode_t p)" "clean (urlencode_t p)"
  "CR \<notin> set (urlencode_t p)" "LF \<notin> set (urlencode_t p)"
proof -
  have o: "37 \<le> ord x \<and> ord x \<noteq> 35" if "x \<in> set (urlencode_t p)" for x
    using that by (intro query_char_ord urlencode_t_chars)
  show "urlencode_t p \<noteq> []" by (rule urlencode_t_nonempty)
  show "CHR ''#'' \<notin> set (urlencode_t p)" using o [of "CHR ''#''"] by (auto simp: ord_literals)
  show "clean (urlencode_t p)"
    unfolding clean_def list_all_iff using o unsafe_byte_ord by fastforce
  show "CR \<notin> set (urlencode_t p)" using o [of CR] by (auto simp: ord_literals)
  show "LF \<notin> set (urlencode_t p)" using o [of LF] by (auto simp: ord_literals)
qed

lemma prefix_facts:
  assumes "prefix u p0"
  shows "\<And>x. x \<in> set u \<Longrightarrow> x \<in> set p0" and "u \<noteq> [] \<Longrightarrow> p0 \<noteq> [] \<and> hd u = hd p0"
  using assms by (auto simp: prefix_def)

lemma urlparse_urlunparse:
  assumes "urlparse valid url = Inr c" and "netloc c \<noteq> []"
    and q: "q \<noteq> []" "CHR ''#'' \<notin> set q" "clean q"
  shows "urlparse valid (urlunparse (c\<lparr>query := q\<rparr>)) = Inr (c\<lparr>query := q\<rparr>)"
proof -
  from assms(1) obtain p0 where sp: "urlsplit valid url = Inr (scheme c, netloc c, p0, query c, fragment c)"
    and pp: "(if scheme c \<in> set uses_params \<and> CHR '';'' \<in> set p0 then splitparams p0 else (p0, []))
          = (path c, params c)"
    by (rule urlparse_split)
  note pr = urlsplit_props [OF sp]
  define u where "u = (if params c \<noteq> [] then path c @ CHR '';'' # params c else path c)"
  note rt = splitparams_roundtrip [OF pp, folded u_def]
  note pf = prefix_facts [OF rt(2)]
  have un: "urlunparse (c\<lparr>query := q\<rparr>) = urlunsplit (scheme c, netloc c, u, q, fragment c)"
    by (simp add: urlunparse_def u_def)
  have u1: "CHR ''?'' \<notin> set u" "CHR ''#'' \<notin> set u" using pf(1) pr(4,5) by blast+
  have u2: "u = [] \<or> hd u = CHR ''/''"
  proof (cases "u = []")
    case False
    from pf(2) [OF False] have "p0 \<noteq> []" "hd u = hd p0" by simp_all
    with pr(11) [OF assms(2)] show ?thesis by simp
  qed simp
  have u3: "clean u" using pr(8) pf(1) by (rule clean_subset)
  have "urlsplit valid (urlunsplit (scheme c, netloc c, u, q, fragment c))
      = Inr (scheme c, netloc c, u, q, fragment c)"
    using pr(1) assms(2) pr(2,3) u1 u2 q(1,2) pr(7) u3 q(3) pr(10) by (rule urlsplit_urlunsplit)
  then show ?thesis
    unfolding un urlparse_def by (simp only: sum.case prod.case rt(1)) simp
qed

lemma urlunsplit_shape:
  assumes "q \<noteq> []"
  obtains pre where "urlunsplit (sch, nl, u, q, f) = pre @ CHR ''?'' # q @ (if f \<noteq> [] then CHR ''#'' # f else [])"
    and "set pre \<subseteq> set sch \<union> set nl \<union> set u \<union> {CHR '':'', CHR ''/''}"
proof -
  define url1 where "url1 = (if nl \<noteq> [] \<or> (sch \<noteq> [] \<and> sch \<in> set uses_netloc \<and> take 2 u \<noteq> ''//'')
                    then ''//'' @ nl @ (if u \<noteq> [] \<and> take 1 u \<noteq> ''/'' then ''/'' @ u else u)
                    else u)"
  define url2 where "url2 = (if sch \<noteq> [] then sch @ '':'' @ url1 else url1)"
  have s1: "set url1 \<subseteq> set nl \<union> set u \<union> {CHR ''/''}" unfolding url1_def by auto
  have s2: "set url2 \<subseteq> set sch \<union> set nl \<union> set u \<union> {CHR '':'', CHR ''/''}"
    unfolding url2_def using s1 by auto
  have "urlunsplit (sch, nl, u, q, f) = url2 @ CHR ''?'' # q @ (if f \<noteq> [] then CHR ''#'' # f else [])"
    unfolding urlunsplit_def prod.case Let_def url1_def [symmetric] url2_def [symmetric]
    using assms by simp
  then show ?thesis using s2 by (rule that)
qed

lemma update_url_shape:
  assumes "urlparse valid url = Inr c"
  obtains pre post where "update_url_with_passwd valid url passwd = Inr (pre @ CHR ''?'' # urlencode_t passwd @ post)"
    and "CHR ''?'' \<notin> set pre" and "CHR ''#'' \<notin> set pre" and "post = [] \<or> hd post = CHR ''#''"
proof -
  from assms obtain p0 where sp: "urlsplit valid url = Inr (scheme c, netloc c, p0, query c, fragment c)"
    and pp: "(if scheme c \<in> set uses_params \<and> CHR '';'' \<in> set p0 then splitparams p0 else (p0, []))
          = (path c, params c)"
    by (rule urlparse_split)
  note pr = urlsplit_props [OF sp]
  define u where "u = (if params c \<noteq> [] then path c @ CHR '';'' # params c else path c)"
  note rt = splitparams_roundtrip [OF pp, folded u_def]
  note pf = prefix_facts [OF rt(2)]
  have un: "urlunparse (c\<lparr>query := urlencode_t passwd\<rparr>)
      = urlunsplit (scheme c, netloc c, u, urlencode_t passwd, fragment c)"
    by (simp add: urlunparse_def u_def)
  obtain pre where pre: "urlunsplit (scheme c, netloc c, u, urlencode_t passwd, fragment c)
        = pre @ CHR ''?'' # urlencode_t passwd @ (if fragment c \<noteq> [] then CHR ''#'' # fragment c else [])"
    and sub: "set pre \<subseteq> set (scheme c) \<union> set (netloc c) \<union> set u \<union> {CHR '':'', CHR ''/''}"
    using urlencode_t_nonempty by (rule urlunsplit_shape)
  have sch: "x \<noteq> CHR ''?'' \<and> x \<noteq> CHR ''#''" if "x \<in> set (scheme c)" for x
    using scheme_ok_chars [OF pr(1) that] scheme_char_facts(3,4) by blast
  have nl: "x \<noteq> CHR ''?'' \<and> x \<noteq> CHR ''#''" if "x \<in> set (netloc c)" for x
    using pr(2) that by (auto simp: list_all_iff netloc_delim_iff)
  have uu: "x \<noteq> CHR ''?'' \<and> x \<noteq> CHR ''#''" if "x \<in> set u" for x
    using pf(1) [OF that] pr(4,5) by auto
  have np: "CHR ''?'' \<notin> set pre" "CHR ''#'' \<notin> set pre"
    using sub sch nl uu by auto
  show ?thesis
  proof (rule that [of pre "if fragment c \<noteq> [] then CHR ''#'' # fragment c else []"])
    show "update_url_with_passwd valid url passwd = Inr (pre @ CHR ''?'' # urlencode_t passwd
        @ (if fragment c \<noteq> [] then CHR ''#'' # fragment c else []))"
      unfolding update_url_with_passwd_def by (simp only: assms sum.case un pre)
  qed (use np in simp_all)
qed

section \<open>The claims about the Session\<close>

subsection \<open>abort\<close>

text \<open>
  Claim C1 says that a second \<^verbatim>\<open>abort()\<close> on the same Session does not fail.
  On a new Session, the first call sets the shutdown signal and the second raises
  \<^verbatim>\<open>InvalidStateError\<close>.
\<close>

theorem abort_twice_raises:
  "\<not> isl (BaseServer_init no_file_exists (''127.0.0.1'', 40000) ''ws://example.com/'' None None 120)
   \<and> snd (run (projr (BaseServer_init no_file_exists (''127.0.0.1'', 40000) ''ws://example.com/''
                         None None 120))
         [Call_abort, Call_abort]) = [Raises InvalidStateError]"
  by (simp add: BaseServer_init_def abort_def)

text \<open>
  Claim C1, as the code has it. \<^verbatim>\<open>abort()\<close> on a Session whose shutdown signal is
  unset sets it and raises nothing; on a Session whose signal is set it raises
  \<^verbatim>\<open>InvalidStateError\<close> and changes nothing. Along any run of a new Session the
  signal is set exactly when \<^verbatim>\<open>abort()\<close> has been called, so it goes from unset to
  set at most once and never back: the first call sets it and every later call raises.
  When \<^verbatim>\<open>abort()\<close> has been called before \<^verbatim>\<open>new_client\<close> has finished, the
  "ended" notification is never invoked, whatever follows and however many calls of
  \<^verbatim>\<open>abort()\<close> follow.
\<close>

theorem abort_sets_shutdown_once_then_raises:
  assumes "BaseServer_init env c u cf cc t = Inr s0"
  shows "(shutdown s = Pending \<longrightarrow> abort s = Inr (s\<lparr>shutdown := Done True\<rparr>))
   \<and> (shutdown s \<noteq> Pending \<longrightarrow> abort s = Inl InvalidStateError)
   \<and> shutdown (fst (run s0 evs)) = (if Call_abort \<in> set evs then Done True else Pending)
   \<and> (Call_abort \<notin> set evs \<longrightarrow>
        step (fst (run s0 evs)) Call_abort = ((fst (run s0 evs))\<lparr>shutdown := Done True\<rparr>, []))
   \<and> (Call_abort \<in> set evs \<longrightarrow>
        step (fst (run s0 evs)) Call_abort = (fst (run s0 evs), [Raises InvalidStateError]))
   \<and> (Call_abort \<in> set evs \<and> phase (fst (run s0 evs)) \<noteq> Ended \<longrightarrow>
        notifications (snd (run s0 (evs @ post))) = [])"
proof -
  let ?s1 = "fst (run s0 evs)"
  have sh: "shutdown ?s1 = (if Call_abort \<in> set evs then Done True else Pending)"
    by (simp add: run_shutdown BaseServer_init_fields(2) [OF assms])
  have quiet: "notifications (snd (run s0 (evs @ post))) = []"
    if "Call_abort \<in> set evs" "phase ?s1 \<noteq> Ended"
  proof -
    have "notifications (snd (run s0 evs)) = []" using that(2) by (rule run_not_Ended)
    moreover have "shutdown ?s1 \<noteq> Pending" using sh that(1) by simp
    then have "notifications (snd (run ?s1 post)) = []" by (rule run_aborted_silent)
    ultimately show ?thesis by (simp add: run_append_snd notifications_append)
  qed
  show ?thesis
    using sh quiet by (auto simp: abort_def split: future.splits)
qed

theorem abort_sets_shutdown_once_then_raises_witness:
  "\<not> isl (BaseServer_init no_file_exists (''127.0.0.1'', 40000) ''ws://example.com/'' None None 120)
   \<and> shutdown (projr (BaseServer_init no_file_exists (''127.0.0.1'', 40000) ''ws://example.com/''
         None None 120)) = Pending
   \<and> abort (projr (BaseServer_init no_file_exists (''127.0.0.1'', 40000) ''ws://example.com/''
         None None 120))
       = Inr ((projr (BaseServer_init no_file_exists (''127.0.0.1'', 40000) ''ws://example.com/''
                 None None 120))
               \<lparr>shutdown := Done True\<rparr>)
   \<and> Call_abort \<in> set [NewClientStart, HandshakeOk, Call_abort]
   \<and> phase (fst (run (projr (BaseServer_init no_file_exists (''127.0.0.1'', 40000)
         ''ws://example.com/'' None None 120))
         [NewClientStart, HandshakeOk, Call_abort])) = Racing
   \<and> step (fst (run (projr (BaseServer_init no_file_exists (''127.0.0.1'', 40000)
         ''ws://example.com/'' None None 120))
         [NewClientStart, HandshakeOk, Call_abort])) Call_abort
       = (fst (run (projr (BaseServer_init no_file_exists (''127.0.0.1'', 40000)
         ''ws://example.com/'' None None 120))
         [NewClientStart, HandshakeOk, Call_abort]), [Raises InvalidStateError])
   \<and> notifications (snd (run (projr (BaseServer_init no_file_exists (''127.0.0.1'', 40000)
         ''ws://example.com/'' None None 120))
         ([NewClientStart, HandshakeOk, Call_abort]
          @ [Call_abort, WaitReturns ShutdownFuture, CloseDone]))) = []"
proof -
  let ?new = "BaseServer_init no_file_exists (''127.0.0.1'', 40000) ''ws://example.com/'' None None 120"
  let ?init = "projr ?new"
  let ?evs = "[NewClientStart, HandshakeOk, Call_abort]"
  have i: "?new = Inr ?init" by (simp add: BaseServer_init_def)
  have r: "\<not> isl ?new" by (simp add: BaseServer_init_def)
  have p: "shutdown ?init = Pending" by (simp add: BaseServer_init_def)
  have m: "Call_abort \<in> set ?evs" by simp
  have ph: "phase (fst (run ?init ?evs)) = Racing"
    by (simp add: BaseServer_init_def new_client_connected_def abort_def Let_def)
  then have ne: "phase (fst (run ?init ?evs)) \<noteq> Ended" by simp
  show ?thesis
    using abort_sets_shutdown_once_then_raises
      [OF i, of ?init ?evs "[Call_abort, WaitReturns ShutdownFuture, CloseDone]"]
      r p m ph ne
    by simp
qed

subsection \<open>The "ended" notification\<close>

text \<open>
  Claim C2 says that every Session whose termination was not caused by
  \<^verbatim>\<open>abort()\<close>, a failed handshake included, notifies exactly once. In the run
  below \<^verbatim>\<open>abort()\<close> is called while the handshake is in flight, where nothing
  awaits the shutdown signal; the handshake then fails, which is what ends the Session
  and is logged as an error; \<^verbatim>\<open>f_conn_lost\<close> is not invoked.
\<close>

theorem aborted_session_ended_by_handshake_failure_is_silent:
  "\<not> isl (BaseServer_init no_file_exists (''10.0.0.7'', 5353) ''wss://example.com/t'' None None 120)
   \<and> phase (fst (run (projr (BaseServer_init no_file_exists (''10.0.0.7'', 5353)
        ''wss://example.com/t'' None None 120))
      [NewClientStart, Call_abort])) = Connecting
   \<and> phase (fst (run (projr (BaseServer_init no_file_exists (''10.0.0.7'', 5353)
        ''wss://example.com/t'' None None 120))
      [NewClientStart, Call_abort, HandshakeFail (TunnelError 0)])) = Ended
   \<and> logged (fst (run (projr (BaseServer_init no_file_exists (''10.0.0.7'', 5353)
        ''wss://example.com/t'' None None 120))
      [NewClientStart, Call_abort, HandshakeFail (TunnelError 0)])) = [Error (TunnelError 0)]
   \<and> snd (run (projr (BaseServer_init no_file_exists (''10.0.0.7'', 5353)
        ''wss://example.com/t'' None None 120))
      [NewClientStart, Call_abort, HandshakeFail (TunnelError 0)]) = []"
  by (simp add: BaseServer_init_def no_file_exists_def abort_def new_client_finally_def Let_def)

text \<open>
  Claim C2, as the code has it: what suppresses the notification is that the shutdown
  signal is set when \<^verbatim>\<open>new_client\<close> finishes, whatever ended the Session. Take
  any run of a new Session in which \<^verbatim>\<open>new_client\<close> finishes: the events \<open>pre\<close>
  leave it unfinished and the event \<open>ev\<close> finishes it. Then, whatever events \<open>post\<close>
  follow, \<^verbatim>\<open>f_conn_lost\<close> is invoked exactly once, with the Session's client, when
  \<^verbatim>\<open>abort()\<close> was not called before the Session finished, and it is never invoked
  when \<^verbatim>\<open>abort()\<close> was called before. Nothing is notified while the Session has
  not finished. A failure of the handshake finishes the Session, so it is one of the
  cases.
\<close>

theorem ended_notification_exactly_once_unless_aborted:
  assumes "BaseServer_init env c u cf cc t = Inr s0"
      and "phase (fst (run s0 pre)) \<noteq> Ended"
      and "phase (fst (run s0 (pre @ [ev]))) = Ended"
  shows "notifications (snd (run s0 (pre @ ev # post)))
           = (if Call_abort \<in> set pre then [] else [c])
       \<and> notifications (snd (run s0 pre)) = []
       \<and> (phase (fst (run s0 pre)) = Connecting \<longrightarrow>
            phase (fst (run s0 (pre @ [HandshakeFail e]))) = Ended)"
proof -
  let ?s1 = "fst (run s0 pre)"
  let ?s2 = "fst (step ?s1 ev)"
  have before: "notifications (snd (run s0 pre)) = []"
    using assms(2) by (rule run_not_Ended)
  have ended: "phase ?s2 = Ended"
    using assms(3) by (simp add: run_append_fst run_Cons_fst del: run.simps(2))
  have at: "notifications (snd (step ?s1 ev)) = (if shutdown ?s1 = Pending then [client ?s1] else [])"
    using assms(2) ended by (simp add: step_notifications)
  have sh: "shutdown ?s1 = Pending \<longleftrightarrow> Call_abort \<notin> set pre"
    by (simp add: run_shutdown BaseServer_init_fields(2) [OF assms(1)])
  have cl: "client ?s1 = c" by (simp add: run_client BaseServer_init_fields(1) [OF assms(1)])
  have after: "notifications (snd (run ?s2 post)) = []"
    using run_Ended [OF ended] by simp
  have "notifications (snd (run s0 (pre @ ev # post)))
      = notifications (snd (run s0 pre)) @ notifications (snd (step ?s1 ev))
        @ notifications (snd (run ?s2 post))"
    by (simp add: run_append_snd run_Cons_snd notifications_append del: run.simps(2))
  moreover have "phase (fst (run s0 (pre @ [HandshakeFail e]))) = Ended"
    if "phase ?s1 = Connecting"
    using that by (simp add: run_append_fst new_client_finally_def Let_def)
  ultimately show ?thesis using before at sh cl after by simp
qed

theorem ended_notification_exactly_once_unless_aborted_witness:
  "\<not> isl (BaseServer_init no_file_exists (''10.0.0.7'', 5353) ''wss://example.com/t'' None None 120)
   \<and> phase (fst (run (projr (BaseServer_init no_file_exists (''10.0.0.7'', 5353)
          ''wss://example.com/t'' None None 120))
        [Call_data_received ''abc'', NewClientStart])) \<noteq> Ended
   \<and> phase (fst (run (projr (BaseServer_init no_file_exists (''10.0.0.7'', 5353)
          ''wss://example.com/t'' None None 120))
        ([Call_data_received ''abc'', NewClientStart] @ [HandshakeFail (TunnelError 0)]))) = Ended
   \<and> notifications (snd (run (projr (BaseServer_init no_file_exists (''10.0.0.7'', 5353)
          ''wss://example.com/t'' None None 120))
        ([Call_data_received ''abc'', NewClientStart] @ HandshakeFail (TunnelError 0)
           # [Call_data_received ''def'', CloseDone, Call_abort]))) = [(''10.0.0.7'', 5353)]"
proof -
  let ?new = "BaseServer_init no_file_exists (''10.0.0.7'', 5353) ''wss://example.com/t'' None None 120"
  let ?init = "projr ?new"
  let ?pre = "[Call_data_received ''abc'', NewClientStart]"
  have i: "?new = Inr ?init" by (simp add: BaseServer_init_def no_file_exists_def)
  have r: "\<not> isl ?new" by (simp add: BaseServer_init_def no_file_exists_def)
  have a: "phase (fst (run ?init ?pre)) \<noteq> Ended"
    by (simp add: BaseServer_init_def no_file_exists_def data_received_def)
  have b: "phase (fst (run ?init (?pre @ [HandshakeFail (TunnelError 0)]))) = Ended"
    by (simp add: BaseServer_init_def no_file_exists_def data_received_def new_client_finally_def Let_def)
  show ?thesis
    using ended_notification_exactly_once_unless_aborted
      [OF i a b, of "[Call_data_received ''def'', CloseDone, Call_abort]"] r a b
    by simp
qed

subsection \<open>Forwarding in order\<close>

text \<open>
  Claim C3 says that for every sequence of buffers passed to \<^verbatim>\<open>data_received\<close>
  the sender sends as many messages. In the run below a buffer is passed to
  \<^verbatim>\<open>data_received\<close> of a new Session and the handshake then fails: the Session
  has ended, no sender was ever created, and nothing has been sent nor is ever sent,
  whatever follows.
\<close>

theorem buffer_queued_before_failed_handshake_is_never_sent:
  "\<not> isl (BaseServer_init no_file_exists (''10.0.0.7'', 5353) ''ws://example.com/t'' None None 120)
   \<and> buffers [Call_data_received ''d1'', NewClientStart, HandshakeFail (TunnelError 0)] = [''d1'']
   \<and> phase (fst (run (projr (BaseServer_init no_file_exists (''10.0.0.7'', 5353)
        ''ws://example.com/t'' None None 120))
      [Call_data_received ''d1'', NewClientStart, HandshakeFail (TunnelError 0)])) = Ended
   \<and> sender_task (fst (run (projr (BaseServer_init no_file_exists (''10.0.0.7'', 5353)
        ''ws://example.com/t'' None None 120))
      [Call_data_received ''d1'', NewClientStart, HandshakeFail (TunnelError 0)])) = None
   \<and> (\<forall>post. ws_sent (fst (run (projr (BaseServer_init no_file_exists (''10.0.0.7'', 5353)
        ''ws://example.com/t'' None None 120))
      ([Call_data_received ''d1'', NewClientStart, HandshakeFail (TunnelError 0)] @ post))) = [])"
proof -
  let ?new = "BaseServer_init no_file_exists (''10.0.0.7'', 5353) ''ws://example.com/t'' None None 120"
  let ?init = "projr ?new"
  let ?evs = "[Call_data_received ''d1'', NewClientStart, HandshakeFail (TunnelError 0)]"
  have i: "?new = Inr ?init" by (simp add: BaseServer_init_def)
  have r: "\<not> isl ?new" by (simp add: BaseServer_init_def)
  have b: "buffers ?evs = [''d1'']" by simp
  have e: "phase (fst (run ?init ?evs)) = Ended"
    by (simp add: BaseServer_init_def data_received_def new_client_finally_def Let_def)
  have n: "sender_task (fst (run ?init ?evs)) = None"
    by (simp add: BaseServer_init_def data_received_def new_client_finally_def Let_def)
  have z: "ws_sent (fst (run ?init ?evs)) = []"
    by (simp add: BaseServer_init_def data_received_def new_client_finally_def Let_def)
  have inv: "session_inv (fst (run ?init ?evs))"
    using session_inv_init [OF i] by (rule run_session_inv)
  have "ws_sent (fst (run ?init (?evs @ post))) = []" for post
    using run_Ended_ws_sent [OF inv e, of post] z by (simp only: run_append_fst)
  then show ?thesis using r b e n by (simp only: simp_thms)
qed

text \<open>
  Claim C3, as the code has it. In every state a new Session reaches, the messages the
  sender has sent are a prefix of the buffers passed to \<^verbatim>\<open>data_received\<close>, in the
  order they were passed, one message for one buffer: the buffers received are the
  messages sent, followed by at most one buffer that was taken from the queue and not
  sent, followed by the queue. A Session sends through its sender only, which is
  created when the handshake succeeds: a Session with no sender has sent nothing, and
  a Session that has ended sends nothing more, whatever follows. While the sender has
  been created and is not stopped, the buffers received are the messages sent, the
  buffer the sender holds and the queue; and once the event loop has given the sender
  its turns and every send has completed, the messages sent are exactly the buffers
  received, in order, one message for each buffer, and the queue is empty.
\<close>

theorem sender_sends_buffers_in_order_while_it_runs:
  assumes "BaseServer_init env c u cf cc t = Inr s0"
  shows "prefix (ws_sent (fst (run s0 evs))) (buffers evs)
   \<and> (\<exists>mid. ws_sent (fst (run s0 evs)) @ mid @ que (fst (run s0 evs)) = buffers evs
            \<and> length mid \<le> 1)
   \<and> (\<forall>x. sender_task (fst (run s0 evs)) = Some x \<and> \<not> task_stopped x \<longrightarrow>
        ws_sent (fst (run s0 evs)) @ in_flight (Some x) @ que (fst (run s0 evs)) = buffers evs
        \<and> ws_sent (fst (run s0 (evs @ sender_turns (fst (run s0 evs))))) = buffers evs
        \<and> que (fst (run s0 (evs @ sender_turns (fst (run s0 evs))))) = []
        \<and> sender_task (fst (run s0 (evs @ sender_turns (fst (run s0 evs)))))
            = Some (Waiting QueGet))
   \<and> (phase (fst (run s0 evs)) = Connecting \<longrightarrow>
        sender_task (fst (run s0 (evs @ [HandshakeOk]))) = Some Created)
   \<and> (sender_task (fst (run s0 evs)) = None \<longrightarrow> ws_sent (fst (run s0 evs)) = [])
   \<and> (phase (fst (run s0 evs)) = Ended \<longrightarrow>
        ws_sent (fst (run s0 (evs @ post))) = ws_sent (fst (run s0 evs)))"
proof -
  let ?s = "fst (run s0 evs)"
  have inv: "session_inv ?s" using session_inv_init [OF assms] by (rule run_session_inv)
  have "conserved ?s ([] @ buffers evs)"
    using conserved_init [OF assms] session_inv_init [OF assms] by (rule run_conserved)
  then obtain mid where m: "ws_sent ?s @ mid @ que ?s = buffers evs" "length mid \<le> 1"
    "sender_live (sender_task ?s) \<longrightarrow> mid = in_flight (sender_task ?s)"
    unfolding conserved_def by auto
  have shape: "sender_task ?s \<noteq> Some (Waiting WsRecv) \<and> sender_task ?s \<noteq> Some (Waiting Sleep)"
    by (rule run_sender_shape) (simp_all add: BaseServer_init_fields(8) [OF assms])
  have safe: "prefix (ws_sent ?s) (buffers evs)" using m(1) by (metis prefixI)
  have cons: "\<exists>mid. ws_sent ?s @ mid @ que ?s = buffers evs \<and> length mid \<le> 1"
    using m by blast
  have live: "ws_sent ?s @ in_flight (Some x) @ que ?s = buffers evs
      \<and> ws_sent (fst (run s0 (evs @ sender_turns ?s))) = buffers evs
      \<and> que (fst (run s0 (evs @ sender_turns ?s))) = []
      \<and> sender_task (fst (run s0 (evs @ sender_turns ?s))) = Some (Waiting QueGet)"
    if x: "sender_task ?s = Some x" "\<not> task_stopped x" for x
  proof -
    have all: "ws_sent ?s @ in_flight (sender_task ?s) @ que ?s = buffers evs"
      using m x by simp
    have nx: "x \<noteq> Waiting WsRecv" "x \<noteq> Waiting Sleep" using shape x(1) by auto
    from sender_turns_send_all [OF x nx] all x(1) show ?thesis
      by (simp add: run_append_fst)
  qed
  have created: "sender_task (fst (run s0 (evs @ [HandshakeOk]))) = Some Created"
    if "phase ?s = Connecting"
    using that by (simp add: run_append_fst new_client_connected_def Let_def)
  have none: "sender_task ?s = None \<longrightarrow> ws_sent ?s = []"
    by (rule run_nothing_sent_without_sender) (simp add: BaseServer_init_fields(6) [OF assms])
  have ended: "ws_sent (fst (run s0 (evs @ post))) = ws_sent ?s" if "phase ?s = Ended"
    using run_Ended_ws_sent [OF inv that, of post] by (simp only: run_append_fst)
  show ?thesis using safe cons live created none ended by blast
qed

theorem sender_sends_buffers_in_order_while_it_runs_witness:
  "\<not> isl (BaseServer_init no_file_exists (''10.0.0.7'', 5353) ''ws://example.com/t'' None None 120)
   \<and> sender_task (fst (run (projr (BaseServer_init no_file_exists (''10.0.0.7'', 5353)
        ''ws://example.com/t'' None None 120))
      [Call_data_received ''d1'', NewClientStart, Call_data_received ''d2'', HandshakeOk,
       TaskStart SenderTask, SendOk, SendOk, Call_data_received ''d3'',
       Call_data_received ''d4''])) = Some (Waiting QueGet)
   \<and> \<not> task_stopped (Waiting QueGet)
   \<and> ws_sent (fst (run (projr (BaseServer_init no_file_exists (''10.0.0.7'', 5353)
        ''ws://example.com/t'' None None 120))
      [Call_data_received ''d1'', NewClientStart, Call_data_received ''d2'', HandshakeOk,
       TaskStart SenderTask, SendOk, SendOk, Call_data_received ''d3'',
       Call_data_received ''d4''])) = [''d1'', ''d2'']
   \<and> sender_turns (fst (run (projr (BaseServer_init no_file_exists (''10.0.0.7'', 5353)
        ''ws://example.com/t'' None None 120))
      [Call_data_received ''d1'', NewClientStart, Call_data_received ''d2'', HandshakeOk,
       TaskStart SenderTask, SendOk, SendOk, Call_data_received ''d3'',
       Call_data_received ''d4''])) = [QueueItem, SendOk, SendOk]
   \<and> ws_sent (fst (run (projr (BaseServer_init no_file_exists (''10.0.0.7'', 5353)
        ''ws://example.com/t'' None None 120))
      ([Call_data_received ''d1'', NewClientStart, Call_data_received ''d2'', HandshakeOk,
        TaskStart SenderTask, SendOk, SendOk, Call_data_received ''d3'',
        Call_data_received ''d4''] @ [QueueItem, SendOk, SendOk])))
     = [''d1'', ''d2'', ''d3'', ''d4'']"
proof -
  let ?new = "BaseServer_init no_file_exists (''10.0.0.7'', 5353) ''ws://example.com/t'' None None 120"
  let ?init = "projr ?new"
  let ?evs = "[Call_data_received ''d1'', NewClientStart, Call_data_received ''d2'', HandshakeOk,
       TaskStart SenderTask, SendOk, SendOk, Call_data_received ''d3'',
       Call_data_received ''d4'']"
  have i: "?new = Inr ?init" by (simp add: BaseServer_init_def)
  have r: "\<not> isl ?new" by (simp add: BaseServer_init_def)
  have a: "sender_task (fst (run ?init ?evs)) = Some (Waiting QueGet)"
    by (simp add: BaseServer_init_def data_received_def new_client_connected_def Let_def
        ws_data_sender_loop_def sender_take_def reset_watchdog_def)
  have q: "que (fst (run ?init ?evs)) = [''d3'', ''d4'']"
    by (simp add: BaseServer_init_def data_received_def new_client_connected_def Let_def
        ws_data_sender_loop_def sender_take_def reset_watchdog_def)
  have w: "ws_sent (fst (run ?init ?evs)) = [''d1'', ''d2'']"
    by (simp add: BaseServer_init_def data_received_def new_client_connected_def Let_def
        ws_data_sender_loop_def sender_take_def reset_watchdog_def)
  have n: "\<not> task_stopped (Waiting QueGet)" by simp
  have t: "sender_turns (fst (run ?init ?evs)) = [QueueItem, SendOk, SendOk]"
    unfolding sender_turns_def by (simp only: a q) simp
  have c: "buffers ?evs = [''d1'', ''d2'', ''d3'', ''d4'']" by simp
  have "ws_sent (fst (run ?init (?evs @ sender_turns (fst (run ?init ?evs))))) = buffers ?evs"
    using sender_sends_buffers_in_order_while_it_runs [OF i, of ?evs] a n by blast
  then have "ws_sent (fst (run ?init (?evs @ [QueueItem, SendOk, SendOk])))
      = [''d1'', ''d2'', ''d3'', ''d4'']"
    by (simp only: t c)
  then show ?thesis using r a n w t by (simp only: simp_thms)
qed

subsection \<open>Buffers received before the connection is established\<close>



subsection \<open>Cancellation of the tasks\<close>

text \<open>
  Claim C9 says that the cancellation of the other activities is awaited before the
  Session finishes, so that none is left running. In the run below the receiver fails
  and wins the race; when \<^verbatim>\<open>new_client\<close> has finished and has invoked
  \<^verbatim>\<open>f_conn_lost\<close>, the sender and the watchdog have been asked to cancel and are
  not done.
\<close>

theorem tasks_left_pending_when_session_ends:
  "\<not> isl (BaseServer_init no_file_exists (''10.0.0.7'', 5353) ''ws://example.com/t'' None None 120)
   \<and> phase (fst (run (projr (BaseServer_init no_file_exists (''10.0.0.7'', 5353)
        ''ws://example.com/t'' None None 120))
      [NewClientStart, HandshakeOk, TaskStart WatchdogTask, TaskStart SenderTask,
       TaskStart ReceiverTask, RecvFail (TunnelError 0), WaitReturns (TaskOf ReceiverTask),
       CloseDone])) = Ended
   \<and> sender_task (fst (run (projr (BaseServer_init no_file_exists (''10.0.0.7'', 5353)
        ''ws://example.com/t'' None None 120))
      [NewClientStart, HandshakeOk, TaskStart WatchdogTask, TaskStart SenderTask,
       TaskStart ReceiverTask, RecvFail (TunnelError 0), WaitReturns (TaskOf ReceiverTask),
       CloseDone])) = Some CancelRequested
   \<and> watchdog_task (fst (run (projr (BaseServer_init no_file_exists (''10.0.0.7'', 5353)
        ''ws://example.com/t'' None None 120))
      [NewClientStart, HandshakeOk, TaskStart WatchdogTask, TaskStart SenderTask,
       TaskStart ReceiverTask, RecvFail (TunnelError 0), WaitReturns (TaskOf ReceiverTask),
       CloseDone])) = Some CancelRequested
   \<and> \<not> task_done CancelRequested
   \<and> snd (run (projr (BaseServer_init no_file_exists (''10.0.0.7'', 5353)
        ''ws://example.com/t'' None None 120))
      [NewClientStart, HandshakeOk, TaskStart WatchdogTask, TaskStart SenderTask,
       TaskStart ReceiverTask, RecvFail (TunnelError 0), WaitReturns (TaskOf ReceiverTask),
       CloseDone]) = [ConnLost (''10.0.0.7'', 5353)]"
  by (simp add: BaseServer_init_def new_client_connected_def new_client_finally_def Let_def
      ws_data_sender_loop_def ws_data_receiver_loop_def sender_take_def reset_watchdog_def
      cancel_task_def Watchdog_init_def reset_def)

text \<open>
  Claim C9, as the code has it. During the race and while the connection closes, the
  connection is open and no task has been asked to cancel. When \<^verbatim>\<open>new_client\<close>
  has finished, the connection is no longer open and every task of \<^verbatim>\<open>tasks\<close> is
  done or has been asked to cancel; the cancellation is not awaited. Every task is done
  once the event loop has delivered the cancellations.
\<close>

theorem cleanup_requests_cancellation_without_awaiting:
  assumes "BaseServer_init env c u cf cc t = Inr s0"
  shows "(racing_or_closing (fst (run s0 evs)) \<longrightarrow>
      ws (fst (run s0 evs)) = Open
      \<and> (\<forall>n\<in>set (tasks (fst (run s0 evs))).
           get_task (fst (run s0 evs)) n \<noteq> Some CancelRequested
           \<and> get_task (fst (run s0 evs)) n \<noteq> Some Cancelled))
   \<and> (phase (fst (run s0 evs)) = Ended \<longrightarrow>
      ws (fst (run s0 evs)) \<noteq> Open
      \<and> (\<forall>n\<in>set (tasks (fst (run s0 evs))).
           \<exists>x. get_task (fst (run s0 evs)) n = Some x \<and> task_stopped x)
      \<and> (\<forall>n\<in>set (tasks (fst (run s0 evs))).
           \<exists>x. get_task (fst (run (fst (run s0 evs))
                   (map CancelDelivered (tasks (fst (run s0 evs)))))) n
                 = Some x \<and> task_done x))"
proof -
  let ?s = "fst (run s0 evs)"
  have inv: "session_inv ?s" using session_inv_init [OF assms] by (rule run_session_inv)
  have created: "\<exists>x. get_task ?s n = Some x" if "n \<in> set (tasks ?s)" for n
    using inv that unfolding session_inv_def by auto
  have racing: "ws ?s = Open \<and> (\<forall>n\<in>set (tasks ?s).
      get_task ?s n \<noteq> Some CancelRequested \<and> get_task ?s n \<noteq> Some Cancelled)"
    if "racing_or_closing ?s"
    using inv that unfolding session_inv_def by auto
  have stopped: "\<exists>x. get_task ?s n = Some x \<and> task_stopped x"
    if "phase ?s = Ended" "n \<in> set (tasks ?s)" for n
    using inv that created [OF that(2)] unfolding session_inv_def by auto
  have closed: "ws ?s \<noteq> Open" if "phase ?s = Ended"
    using inv that unfolding session_inv_def by auto
  have delivered: "\<exists>x. get_task (fst (run ?s (map CancelDelivered (tasks ?s)))) n = Some x \<and> task_done x"
    if "phase ?s = Ended" "n \<in> set (tasks ?s)" for n
  proof -
    from stopped [OF that] obtain x where x: "get_task ?s n = Some x" "task_stopped x" by blast
    show ?thesis
      using x that(2) by (cases x) (simp_all add: run_cancel_delivered)
  qed
  show ?thesis using racing stopped closed delivered by blast
qed

theorem cleanup_requests_cancellation_without_awaiting_witness:
  "\<not> isl (BaseServer_init no_file_exists (''10.0.0.7'', 5353) ''ws://example.com/t'' None None 0)
   \<and> phase (fst (run (projr (BaseServer_init no_file_exists (''10.0.0.7'', 5353)
        ''ws://example.com/t'' None None 0))
      [NewClientStart, HandshakeOk, TaskStart SenderTask, TaskStart ReceiverTask,
       RecvFail (TunnelError 0), WaitReturns (TaskOf ReceiverTask), CloseDone])) = Ended
   \<and> tasks (fst (run (projr (BaseServer_init no_file_exists (''10.0.0.7'', 5353)
        ''ws://example.com/t'' None None 0))
      [NewClientStart, HandshakeOk, TaskStart SenderTask, TaskStart ReceiverTask,
       RecvFail (TunnelError 0), WaitReturns (TaskOf ReceiverTask), CloseDone]))
      = [SenderTask, ReceiverTask]
   \<and> ws (fst (run (projr (BaseServer_init no_file_exists (''10.0.0.7'', 5353)
        ''ws://example.com/t'' None None 0))
      [NewClientStart, HandshakeOk, TaskStart SenderTask, TaskStart ReceiverTask,
       RecvFail (TunnelError 0), WaitReturns (TaskOf ReceiverTask), CloseDone])) \<noteq> Open
   \<and> (\<exists>x. get_task (fst (run (projr (BaseServer_init no_file_exists (''10.0.0.7'', 5353)
        ''ws://example.com/t'' None None 0))
      [NewClientStart, HandshakeOk, TaskStart SenderTask, TaskStart ReceiverTask,
       RecvFail (TunnelError 0), WaitReturns (TaskOf ReceiverTask), CloseDone])) SenderTask = Some x
        \<and> task_stopped x)"
proof -
  let ?new = "BaseServer_init no_file_exists (''10.0.0.7'', 5353) ''ws://example.com/t'' None None 0"
  let ?init = "projr ?new"
  let ?evs = "[NewClientStart, HandshakeOk, TaskStart SenderTask, TaskStart ReceiverTask,
       RecvFail (TunnelError 0), WaitReturns (TaskOf ReceiverTask), CloseDone]"
  have i: "?new = Inr ?init" by (simp add: BaseServer_init_def)
  have r: "\<not> isl ?new" by (simp add: BaseServer_init_def)
  have a: "phase (fst (run ?init ?evs)) = Ended"
    by (simp add: BaseServer_init_def new_client_connected_def new_client_finally_def Let_def
      ws_data_sender_loop_def ws_data_receiver_loop_def sender_take_def reset_watchdog_def
      cancel_task_def)
  have b: "tasks (fst (run ?init ?evs)) = [SenderTask, ReceiverTask]"
    by (simp add: BaseServer_init_def new_client_connected_def new_client_finally_def Let_def
      ws_data_sender_loop_def ws_data_receiver_loop_def sender_take_def reset_watchdog_def
      cancel_task_def)
  show ?thesis
    using cleanup_requests_cancellation_without_awaiting [OF i, of ?evs] r a b
    by (simp del: run.simps)
qed

section \<open>The claims about the UDP Listener\<close>

text \<open>
  Claim C4 says that a datagram from an unseen address inserts exactly one new entry.
  The Listener below has a \<^verbatim>\<open>wss://\<close> URI and a bundle of CA certificates that
  does not exist. Its first datagram finds no entry for its address; the constructor
  of the Session raises out of \<^verbatim>\<open>ssl.create_default_context\<close>; no entry is
  inserted, no Session is constructed, the datagram is queued nowhere and
  \<^verbatim>\<open>FileNotFoundError\<close> leaves \<^verbatim>\<open>datagram_received\<close>.
\<close>

theorem datagram_from_unseen_address_inserts_nothing_when_constructor_raises:
  "base_servers (UdpServer_init ''wss://example.com/t'' (Some ''/nonexistent/ca.pem'') None 120)
      (''10.0.0.7'', 5353) = None
   \<and> BaseServer_init no_file_exists (''10.0.0.7'', 5353) ''wss://example.com/t''
        (Some ''/nonexistent/ca.pem'') None 120 = Inl FileNotFoundError
   \<and> datagram_received no_file_exists ''d1'' (''10.0.0.7'', 5353)
        (UdpServer_init ''wss://example.com/t'' (Some ''/nonexistent/ca.pem'') None 120)
      = Inl FileNotFoundError
   \<and> base_servers (udp_step
        (UdpServer_init ''wss://example.com/t'' (Some ''/nonexistent/ca.pem'') None 120)
        (Datagram no_file_exists ''d1'' (''10.0.0.7'', 5353))) = Map.empty
   \<and> objects (udp_step
        (UdpServer_init ''wss://example.com/t'' (Some ''/nonexistent/ca.pem'') None 120)
        (Datagram no_file_exists ''d1'' (''10.0.0.7'', 5353))) = []
   \<and> errors (udp_step
        (UdpServer_init ''wss://example.com/t'' (Some ''/nonexistent/ca.pem'') None 120)
        (Datagram no_file_exists ''d1'' (''10.0.0.7'', 5353))) = [FileNotFoundError]"
  by (simp add: UdpServer_init_def datagram_received_def BaseServer_init_def no_file_exists_def)

text \<open>
  Claim C4, as the code has it. In every state the Listener reaches: an entry of the
  dictionary refers to a live Session of that address; two live Sessions of one address
  are the same Session, and it is the entry of the address, so there is at most one
  live Session per address. A datagram from an address with no entry calls the
  constructor. When the constructor returns, the datagram is queued in the new Session
  and one entry is added, for that address, referring to it, and nothing is raised; when
  the constructor raises, its exception leaves \<^verbatim>\<open>datagram_received\<close> and nothing
  else changes: no entry, no Session, the datagram is dropped. A datagram from an
  address with an entry changes no entry, is queued in the Session the entry refers to
  and raises nothing. An event of a Session removes the entry of its address exactly
  when it ends the Session, raises nothing and changes no other entry. An ended Session
  is thus never an entry again: after the removal the address has no entry and its next
  datagram calls the constructor anew. When no constructor has raised, no callback has
  raised.
\<close>

theorem udp_table_one_live_session_per_address:
  assumes "u = udp_run (UdpServer_init uri' cf cc t) evs"
  shows "(\<forall>a i. base_servers u a = Some i \<longrightarrow>
       i < length (objects u) \<and> client (objects u ! i) = a \<and> live (objects u ! i))
   \<and> (\<forall>i j. i < length (objects u) \<and> j < length (objects u)
        \<and> live (objects u ! i) \<and> live (objects u ! j)
        \<and> client (objects u ! i) = client (objects u ! j)
        \<longrightarrow> i = j \<and> base_servers u (client (objects u ! i)) = Some i)
   \<and> (\<forall>base. base_servers u addr = None \<and> BaseServer_init env addr uri' cf cc t = Inr base \<longrightarrow>
        base_servers (udp_step u (Datagram env d addr))
          = (base_servers u)(addr \<mapsto> length (objects u))
        \<and> objects (udp_step u (Datagram env d addr)) = objects u @ [data_received d base]
        \<and> errors (udp_step u (Datagram env d addr)) = errors u)
   \<and> (\<forall>e. base_servers u addr = None \<and> BaseServer_init env addr uri' cf cc t = Inl e \<longrightarrow>
        udp_step u (Datagram env d addr) = u\<lparr>errors := errors u @ [e]\<rparr>)
   \<and> (\<forall>i. base_servers u addr = Some i \<longrightarrow>
        base_servers (udp_step u (Datagram env d addr)) = base_servers u
        \<and> objects (udp_step u (Datagram env d addr))
          = (objects u)[i := data_received d (objects u ! i)]
        \<and> errors (udp_step u (Datagram env d addr)) = errors u)
   \<and> (\<forall>i. i < length (objects u) \<and> internal ev \<longrightarrow>
        base_servers (udp_step u (SessionEvent i ev))
          = (if live (objects u ! i) \<and> \<not> live (fst (step (objects u ! i) ev))
             then (base_servers u)(client (objects u ! i) := None)
             else base_servers u)
        \<and> errors (udp_step u (SessionEvent i ev)) = errors u)
   \<and> (list_all (constructs uri' cf cc t) evs \<longrightarrow> errors u = [])"
proof -
  have inv0: "udp_inv (UdpServer_init uri' cf cc t)" by (rule udp_inv_init)
  have inv: "udp_inv u" unfolding assms using inv0 by (rule udp_inv_run)
  have ar0: "args (UdpServer_init uri' cf cc t) = (uri', cf, cc, t)"
    by (simp add: UdpServer_init_def)
  have ar: "args u = (uri', cf, cc, t)" unfolding assms by (simp add: udp_run_args ar0)
  have one: "i = j \<and> base_servers u (client (objects u ! i)) = Some i"
    if "i < length (objects u)" "j < length (objects u)" "live (objects u ! i)"
       "live (objects u ! j)" "client (objects u ! i) = client (objects u ! j)" for i j
    using udp_invD(2) [OF inv that(1,3)] udp_invD(2) [OF inv that(2,4)] that(5)
    by (metis option.inject)
  have fresh: "base_servers (udp_step u (Datagram env d addr))
        = (base_servers u)(addr \<mapsto> length (objects u))
      \<and> objects (udp_step u (Datagram env d addr)) = objects u @ [data_received d base]
      \<and> errors (udp_step u (Datagram env d addr)) = errors u"
    if "base_servers u addr = None" "BaseServer_init env addr uri' cf cc t = Inr base" for base
    using datagram_received_new(1,2,3) [OF that(1) ar that(2), of d] by (simp only: simp_thms)
  have raised: "udp_step u (Datagram env d addr) = u\<lparr>errors := errors u @ [e]\<rparr>"
    if "base_servers u addr = None" "BaseServer_init env addr uri' cf cc t = Inl e" for e
    using that(1) ar that(2) by (rule datagram_received_raises)
  have known: "base_servers (udp_step u (Datagram env d addr)) = base_servers u
      \<and> objects (udp_step u (Datagram env d addr)) = (objects u)[i := data_received d (objects u ! i)]
      \<and> errors (udp_step u (Datagram env d addr)) = errors u"
    if "base_servers u addr = Some i" for i
    using datagram_received_known(1,2,3) [OF that, of env d] by (simp only: simp_thms)
  have ends: "base_servers (udp_step u (SessionEvent i ev))
          = (if live (objects u ! i) \<and> \<not> live (fst (step (objects u ! i) ev))
             then (base_servers u)(client (objects u ! i) := None) else base_servers u)
        \<and> errors (udp_step u (SessionEvent i ev)) = errors u"
    if "i < length (objects u)" "internal ev" for i
    using udp_step_session(2,3) [OF inv that] by blast
  have quiet: "errors u = []" if "list_all (constructs uri' cf cc t) evs"
    unfolding assms using udp_run_no_error [OF inv0 ar0 that] by (simp add: UdpServer_init_def)
  show ?thesis
    using udp_invD(1) [OF inv] one fresh raised known ends quiet
    by (intro conjI allI impI) blast+
qed

theorem udp_table_one_live_session_per_address_witness:
  "base_servers (udp_run (UdpServer_init ''ws://example.com/t'' None None 120)
       [Datagram no_file_exists ''d1'' (''10.0.0.7'', 5353),
        Datagram no_file_exists ''d2'' (''10.0.0.7'', 5353),
        SessionEvent 0 NewClientStart]) (''10.0.0.7'', 5353) = Some 0
   \<and> que (objects (udp_run (UdpServer_init ''ws://example.com/t'' None None 120)
       [Datagram no_file_exists ''d1'' (''10.0.0.7'', 5353),
        Datagram no_file_exists ''d2'' (''10.0.0.7'', 5353),
        SessionEvent 0 NewClientStart]) ! 0) = [''d1'', ''d2'']
   \<and> base_servers (udp_step (udp_run (UdpServer_init ''ws://example.com/t'' None None 120)
       [Datagram no_file_exists ''d1'' (''10.0.0.7'', 5353),
        Datagram no_file_exists ''d2'' (''10.0.0.7'', 5353),
        SessionEvent 0 NewClientStart]) (SessionEvent 0 (HandshakeFail (TunnelError 0))))
       (''10.0.0.7'', 5353) = None
   \<and> base_servers (udp_step (udp_run (UdpServer_init ''ws://example.com/t'' None None 120)
       [Datagram no_file_exists ''d1'' (''10.0.0.7'', 5353),
        Datagram no_file_exists ''d2'' (''10.0.0.7'', 5353),
        SessionEvent 0 NewClientStart, SessionEvent 0 (HandshakeFail (TunnelError 0))])
       (Datagram no_file_exists ''d3'' (''10.0.0.7'', 5353))) (''10.0.0.7'', 5353) = Some 1
   \<and> objects (udp_step (udp_run (UdpServer_init ''ws://example.com/t'' None None 120)
       [Datagram no_file_exists ''d1'' (''10.0.0.7'', 5353),
        Datagram no_file_exists ''d2'' (''10.0.0.7'', 5353),
        SessionEvent 0 NewClientStart, SessionEvent 0 (HandshakeFail (TunnelError 0))])
       (Datagram no_file_exists ''d3'' (''10.0.0.7'', 5353))) ! 1
       = data_received ''d3'' (projr (BaseServer_init no_file_exists (''10.0.0.7'', 5353)
           ''ws://example.com/t'' None None 120))
   \<and> errors (udp_run (UdpServer_init ''ws://example.com/t'' None None 120)
       [Datagram no_file_exists ''d1'' (''10.0.0.7'', 5353),
        Datagram no_file_exists ''d2'' (''10.0.0.7'', 5353),
        SessionEvent 0 NewClientStart, SessionEvent 0 (HandshakeFail (TunnelError 0))]) = []"
proof -
  let ?u0 = "UdpServer_init ''ws://example.com/t'' None None 120"
  let ?a = "(''10.0.0.7'', 5353) :: client"
  let ?D1 = "Datagram no_file_exists ''d1'' ?a"
  let ?D2 = "Datagram no_file_exists ''d2'' ?a"
  let ?D3 = "Datagram no_file_exists ''d3'' ?a"
  let ?e1 = "[?D1, ?D2, SessionEvent 0 NewClientStart]"
  let ?e2 = "[?D1, ?D2, SessionEvent 0 NewClientStart, SessionEvent 0 (HandshakeFail (TunnelError 0))]"
  let ?new = "BaseServer_init no_file_exists ?a ''ws://example.com/t'' None None 120"
  let ?s1 = "\<lparr>client = ?a, shutdown = Pending, que = [''d1'', ''d2''],
      uri = ''ws://example.com/t'', ssl_param = None, idle_timeout = 120,
      phase = Connecting, ws = NoConn, watchdog = None, tasks = [],
      watchdog_task = None, sender_task = None, receiver_task = None,
      ws_sent = [], logged = []\<rparr>"
  have i: "?new = Inr (projr ?new)" by (simp add: BaseServer_init_def)
  have u1: "udp_run ?u0 ?e1 = ?u0\<lparr>base_servers := [?a \<mapsto> 0], objects := [?s1]\<rparr>"
    by (simp add: UdpServer_init_def datagram_received_def BaseServer_init_def data_received_def)
  have t1: "base_servers (udp_run ?u0 ?e1) ?a = Some 0" by (simp only: u1) simp
  have o1: "objects (udp_run ?u0 ?e1) = [?s1]" by (simp only: u1) simp
  have l1: "live (objects (udp_run ?u0 ?e1) ! 0)" by (simp only: o1) (simp add: live_def)
  have q1: "que (objects (udp_run ?u0 ?e1) ! 0) = [''d1'', ''d2'']" by (simp only: o1) simp
  have n1: "(0::nat) < length (objects (udp_run ?u0 ?e1))" by (simp only: o1) simp
  have d1: "\<not> live (fst (step (objects (udp_run ?u0 ?e1) ! 0) (HandshakeFail (TunnelError 0))))"
    by (simp only: o1) (simp add: live_def new_client_finally_def Let_def)
  have i1: "internal (HandshakeFail (TunnelError 0))" by simp
  note at1 = udp_table_one_live_session_per_address
      [where u = "udp_run ?u0 ?e1" and uri' = "''ws://example.com/t''" and cf = None and cc = None
         and t = 120 and evs = ?e1 and addr = ?a and d = "''d3''" and env = no_file_exists
         and ev = "HandshakeFail (TunnelError 0)", OF refl]
  have gone: "base_servers (udp_step (udp_run ?u0 ?e1) (SessionEvent 0 (HandshakeFail (TunnelError 0)))) ?a = None"
    using at1 n1 i1 l1 d1 o1
    by (simp del: udp_run.simps udp_step.simps step.simps)
  have run2: "udp_run ?u0 ?e2 = udp_step (udp_run ?u0 ?e1) (SessionEvent 0 (HandshakeFail (TunnelError 0)))"
    by (simp del: udp_step.simps)
  have t2: "base_servers (udp_run ?u0 ?e2) ?a = None" using gone by (simp only: run2)
  have len2: "length (objects (udp_run ?u0 ?e2)) = 1"
    using udp_step_session(1) [OF udp_inv_run [OF udp_inv_init] n1 i1] by (simp only: run2 o1) simp
  have ok: "list_all (constructs ''ws://example.com/t'' None None 120) ?e2"
    by (simp add: BaseServer_init_def)
  note at2 = udp_table_one_live_session_per_address
      [where u = "udp_run ?u0 ?e2" and uri' = "''ws://example.com/t''" and cf = None and cc = None
         and t = 120 and evs = ?e2 and addr = ?a and d = "''d3''" and env = no_file_exists
         and ev = "HandshakeFail (TunnelError 0)", OF refl]
  have fresh: "base_servers (udp_step (udp_run ?u0 ?e2) ?D3) ?a = Some 1
      \<and> objects (udp_step (udp_run ?u0 ?e2) ?D3) ! 1 = data_received ''d3'' (projr ?new)"
    using at2 t2 len2 i
    by (simp del: udp_run.simps udp_step.simps step.simps add: nth_append)
  have quiet: "errors (udp_run ?u0 ?e2) = []" using at2 ok by blast
  show ?thesis using t1 q1 gone fresh quiet by (simp only: simp_thms)
qed

text \<open>
  Claim C10. \<^verbatim>\<open>upstream_lost\<close> with an address that has no entry raises
  \<^verbatim>\<open>KeyError\<close>; with an address that has an entry it removes the entry, and a
  second call with the same address then raises \<^verbatim>\<open>KeyError\<close>: the removal is not
  idempotent.
\<close>

theorem upstream_lost_needs_entry:
  "(base_servers u addr = None \<longrightarrow> upstream_lost addr u = Inl KeyError)
   \<and> (\<forall>i. base_servers u addr = Some i \<longrightarrow>
         upstream_lost addr u = Inr (u\<lparr>base_servers := (base_servers u)(addr := None)\<rparr>)
         \<and> upstream_lost addr (u\<lparr>base_servers := (base_servers u)(addr := None)\<rparr>) = Inl KeyError)"
  by (simp add: upstream_lost_def)

theorem upstream_lost_needs_entry_witness:
  "base_servers (UdpServer_init ''ws://example.com/t'' None None 120) (''10.0.0.7'', 5353) = None
   \<and> upstream_lost (''10.0.0.7'', 5353) (UdpServer_init ''ws://example.com/t'' None None 120)
       = Inl KeyError
   \<and> base_servers (udp_step (UdpServer_init ''ws://example.com/t'' None None 120)
         (Datagram no_file_exists ''d1'' (''10.0.0.7'', 5353))) (''10.0.0.7'', 5353) = Some 0
   \<and> isl (upstream_lost (''10.0.0.7'', 5353)
         ((udp_step (UdpServer_init ''ws://example.com/t'' None None 120)
            (Datagram no_file_exists ''d1'' (''10.0.0.7'', 5353)))
          \<lparr>base_servers := (base_servers (udp_step (UdpServer_init ''ws://example.com/t'' None None 120)
            (Datagram no_file_exists ''d1'' (''10.0.0.7'', 5353))))((''10.0.0.7'', 5353) := None)\<rparr>))
   \<and> \<not> isl (upstream_lost (''10.0.0.7'', 5353)
         (udp_step (UdpServer_init ''ws://example.com/t'' None None 120)
            (Datagram no_file_exists ''d1'' (''10.0.0.7'', 5353))))"
proof -
  let ?u0 = "UdpServer_init ''ws://example.com/t'' None None 120"
  let ?a = "(''10.0.0.7'', 5353) :: client"
  let ?u1 = "udp_step ?u0 (Datagram no_file_exists ''d1'' ?a)"
  have a: "base_servers ?u0 ?a = None" by (simp add: UdpServer_init_def)
  have b: "base_servers ?u1 ?a = Some 0"
    by (simp add: UdpServer_init_def datagram_received_def BaseServer_init_def)
  show ?thesis
    using upstream_lost_needs_entry [of ?u0 ?a] upstream_lost_needs_entry [of ?u1 ?a] a b
    by (simp del: udp_step.simps)
qed

section \<open>The claims about the password file and the tunnel URL\<close>

text \<open>
  Claim C7 says that of a password file whose first line is \<^verbatim>\<open>secret123\<close> and a
  newline only the first line is read, and that the tunnel URL then has the query
  \<^verbatim>\<open>t=secret123\<close>. The file below holds that line, its newline and one more
  byte, 255, which is not text in the encoding (here \<^verbatim>\<open>ascii\<close>; nor is it in
  UTF-8). The read that returns the first line returns that byte as well and is decoded
  as a whole: \<^verbatim>\<open>readline()\<close> raises \<^verbatim>\<open>UnicodeDecodeError\<close>, no password is
  read and no tunnel URL is computed.
\<close>

theorem undecodable_byte_after_first_line_makes_the_read_raise:
  "takeWhile (\<lambda>c. c \<noteq> LF) (''secret123'' @ [LF, CHR 0xFF]) = ''secret123''
   \<and> get_passwd_from_file ascii
        (\<lambda>p. if p = ''/etc/wstunnel.pw'' then Inr [Inr (''secret123'' @ [LF, CHR 0xFF])]
              else Inl FileNotFoundError)
        ''/etc/wstunnel.pw'' = Some (Inl UnicodeDecodeError)
   \<and> tunnel_uri accept_all ascii
        (\<lambda>p. if p = ''/etc/wstunnel.pw'' then Inr [Inr (''secret123'' @ [LF, CHR 0xFF])]
              else Inl FileNotFoundError)
        ''wss://example.com/tunnel'' (Some ''/etc/wstunnel.pw'') = Some (Inl UnicodeDecodeError)"
proof -
  let ?fs = "\<lambda>p. if p = ''/etc/wstunnel.pw'' then Inr [Inr (''secret123'' @ [LF, CHR 0xFF])]
      else Inl FileNotFoundError :: exn + open_file"
  have l: "takeWhile (\<lambda>c. c \<noteq> LF) (''secret123'' @ [LF, CHR 0xFF]) = ''secret123''"
    by (simp add: LF_def)
  have d: "decode ascii (initial ascii) (''secret123'' @ [LF, CHR 0xFF])
      ((''secret123'' @ [LF, CHR 0xFF]) = []) = Inl UnicodeDecodeError"
    by (simp add: ascii_def ord_def LF_def)
  have g: "get_passwd_from_file ascii ?fs ''/etc/wstunnel.pw'' = Some (Inl UnicodeDecodeError)"
    unfolding get_passwd_from_file_def readline_def
    using readline_loop_decode_raises [OF d, of False "[]" "[]"] by simp
  have b: "''/etc/wstunnel.pw'' \<noteq> []" by simp
  have "tunnel_uri accept_all ascii ?fs ''wss://example.com/tunnel'' (Some ''/etc/wstunnel.pw'')
      = Some (Inl UnicodeDecodeError)"
    unfolding tunnel_uri_def by (simp only: option.case b if_False g sum.case)
  with l g show ?thesis by (simp only: simp_thms)
qed

text \<open>
  Claim C7, as the code has it. Let the first read of the password file return bytes
  that decode, in the encoding of the locale, to a text that begins with the line
  \<^verbatim>\<open>secret123\<close> and a newline, whatever the text that follows. Then the password
  read is \<^verbatim>\<open>secret123\<close> and its encoding as the parameter \<^verbatim>\<open>t\<close> is
  \<^verbatim>\<open>t=secret123\<close>. For every URL that \<^verbatim>\<open>urlparse\<close> accepts, the tunnel URL
  computed is some text without \<^verbatim>\<open>?\<close> or \<^verbatim>\<open>#\<close>, then
  \<^verbatim>\<open>?t=secret123\<close>, then nothing or the fragment: its query is exactly
  \<^verbatim>\<open>t=secret123\<close>; when the URL has a network location, the tunnel URL parses to
  the components of the URL with that query. Of the text decoded only the first line is
  returned and its terminator is stripped: when the first read decodes to a line with no
  CR or LF, then LF, or CR and more text, the password is that line. What does not
  depend on the first line alone is whether the password is read at all: when
  \<^verbatim>\<open>open\<close> raises, when the first read raises, or when the bytes of the first
  read do not decode, the exception leaves \<^verbatim>\<open>get_passwd_from_file\<close> and no tunnel
  URL is computed. No password read from a file contains CR or LF, and neither does its
  encoding.
\<close>

theorem password_file_secret123_gives_query_t_secret123:
  assumes "fs f = Inr (Inr chunk # later)" and "f \<noteq> []" and "chunk \<noteq> []"
      and "decode enc (initial enc) chunk False = Inr (''secret123'' @ LF # rest, d1)"
  shows "get_passwd_from_file enc fs f = Some (Inr ''secret123'')
       \<and> urlencode_t ''secret123'' = ''t=secret123''
       \<and> (\<forall>c. urlparse valid url = Inr c \<longrightarrow>
            (\<exists>pre post. tunnel_uri valid enc fs url (Some f) = Some (Inr (pre @ ''?t=secret123'' @ post))
               \<and> CHR ''?'' \<notin> set pre \<and> CHR ''#'' \<notin> set pre
               \<and> (post = [] \<or> hd post = CHR ''#'')))
       \<and> (\<forall>c. urlparse valid url = Inr c \<and> netloc c \<noteq> [] \<longrightarrow>
            (\<exists>r. tunnel_uri valid enc fs url (Some f) = Some (Inr r)
               \<and> urlparse valid r = Inr (c\<lparr>query := ''t=secret123''\<rparr>)))
       \<and> (\<forall>fs' chunk' later' line t rest' d2.
            fs' f = Inr (Inr chunk' # later') \<and> chunk' \<noteq> []
            \<and> decode enc (initial enc) chunk' False = Inr (line @ t # rest', d2)
            \<and> CR \<notin> set line \<and> LF \<notin> set line \<and> (t = LF \<or> t = CR \<and> rest' \<noteq> []) \<longrightarrow>
            get_passwd_from_file enc fs' f = Some (Inr line))
       \<and> (\<forall>fs' e. fs' f = Inl e \<longrightarrow>
            get_passwd_from_file enc fs' f = Some (Inl e)
            \<and> tunnel_uri valid enc fs' url (Some f) = Some (Inl e))
       \<and> (\<forall>fs' later' e. fs' f = Inr (Inl e # later') \<longrightarrow>
            get_passwd_from_file enc fs' f = Some (Inl e)
            \<and> tunnel_uri valid enc fs' url (Some f) = Some (Inl e))
       \<and> (\<forall>fs' chunk' later' e.
            fs' f = Inr (Inr chunk' # later')
            \<and> decode enc (initial enc) chunk' (chunk' = []) = Inl e \<longrightarrow>
            get_passwd_from_file enc fs' f = Some (Inl e)
            \<and> tunnel_uri valid enc fs' url (Some f) = Some (Inl e))
       \<and> (\<forall>fs' passwd. get_passwd_from_file enc fs' f = Some (Inr passwd) \<longrightarrow>
            CR \<notin> set passwd \<and> LF \<notin> set passwd
            \<and> CR \<notin> set (urlencode_t passwd) \<and> LF \<notin> set (urlencode_t passwd))"
proof -
  have first: "get_passwd_from_file enc fs' f = Some (Inr line)"
    if "fs' f = Inr (Inr chunk' # later')" "chunk' \<noteq> []"
       "decode enc (initial enc) chunk' False = Inr (line @ t # rest', d2)"
       "CR \<notin> set line" "LF \<notin> set line" "t = LF \<or> t = CR \<and> rest' \<noteq> []"
    for fs' chunk' later' line t rest' d2
  proof -
    have dec: "decode enc (initial enc) chunk' (chunk' = []) = Inr (line @ t # rest', d2)"
      using that(2,3) by simp
    have t: "t = LF \<or> t = CR \<and> (rest' \<noteq> [] \<or> chunk' = [])" using that(6) by blast
    from readline_loop_first_line [OF dec that(4,5) t, of later' "[]"] rstrip_line(2) [OF that(4,5)]
    show ?thesis by (simp add: get_passwd_from_file_def readline_def that(1))
  qed
  have s: "CR \<notin> set ''secret123''" "LF \<notin> set ''secret123''" by (simp_all add: CR_def LF_def)
  have pw: "get_passwd_from_file enc fs f = Some (Inr ''secret123'')"
    using assms(1,3,4) s by (rule first) simp
  have enc: "urlencode_t ''secret123'' = ''t=secret123''" by (rule urlencode_secret123)
  have tu: "tunnel_uri valid enc fs url (Some f) = Some (update_url_with_passwd valid url ''secret123'')"
    using assms(2) by (simp add: tunnel_uri_def pw)
  have raised: "tunnel_uri valid enc fs' url (Some f) = Some (Inl e)"
    if "get_passwd_from_file enc fs' f = Some (Inl e)" for fs' e
    using assms(2) that by (simp add: tunnel_uri_def)
  have shape: "\<exists>pre post. tunnel_uri valid enc fs url (Some f) = Some (Inr (pre @ ''?t=secret123'' @ post))
               \<and> CHR ''?'' \<notin> set pre \<and> CHR ''#'' \<notin> set pre
               \<and> (post = [] \<or> hd post = CHR ''#'')"
    if "urlparse valid url = Inr c" for c
  proof -
    from that obtain pre post where
      "update_url_with_passwd valid url ''secret123'' = Inr (pre @ CHR ''?'' # urlencode_t ''secret123'' @ post)"
      "CHR ''?'' \<notin> set pre" "CHR ''#'' \<notin> set pre" "post = [] \<or> hd post = CHR ''#''"
      by (rule update_url_shape)
    then show ?thesis unfolding tu enc by (intro exI [of _ pre] exI [of _ post]) simp
  qed
  have parsed: "\<exists>r. tunnel_uri valid enc fs url (Some f) = Some (Inr r)
               \<and> urlparse valid r = Inr (c\<lparr>query := ''t=secret123''\<rparr>)"
    if "urlparse valid url = Inr c" "netloc c \<noteq> []" for c
  proof -
    have "urlparse valid (urlunparse (c\<lparr>query := urlencode_t ''secret123''\<rparr>))
        = Inr (c\<lparr>query := urlencode_t ''secret123''\<rparr>)"
      using that urlencode_t_props(1,2,3) by (rule urlparse_urlunparse)
    then show ?thesis
      unfolding tu update_url_with_passwd_def by (simp add: that(1) enc)
  qed
  have no_file: "get_passwd_from_file enc fs' f = Some (Inl e)" if "fs' f = Inl e" for fs' e
    using that by (simp add: get_passwd_from_file_def)
  have bad_read: "get_passwd_from_file enc fs' f = Some (Inl e)"
    if "fs' f = Inr (Inl e # later')" for fs' later' e
    using that by (simp add: get_passwd_from_file_def readline_def readline_loop_read_raises)
  have bad_bytes: "get_passwd_from_file enc fs' f = Some (Inl e)"
    if "fs' f = Inr (Inr chunk' # later')" "decode enc (initial enc) chunk' (chunk' = []) = Inl e"
    for fs' chunk' later' e
    using that(1) readline_loop_decode_raises [OF that(2), of False later' "[]"]
    by (simp add: get_passwd_from_file_def readline_def)
  have nocrlf: "CR \<notin> set passwd \<and> LF \<notin> set passwd
            \<and> CR \<notin> set (urlencode_t passwd) \<and> LF \<notin> set (urlencode_t passwd)"
    if "get_passwd_from_file enc fs' f = Some (Inr passwd)" for fs' passwd
    using get_passwd_no_newline [OF that] urlencode_t_props(4,5) by simp
  have c3: "\<forall>c. urlparse valid url = Inr c \<longrightarrow>
            (\<exists>pre post. tunnel_uri valid enc fs url (Some f) = Some (Inr (pre @ ''?t=secret123'' @ post))
               \<and> CHR ''?'' \<notin> set pre \<and> CHR ''#'' \<notin> set pre
               \<and> (post = [] \<or> hd post = CHR ''#''))"
    by (intro allI impI) (rule shape)
  have c4: "\<forall>c. urlparse valid url = Inr c \<and> netloc c \<noteq> [] \<longrightarrow>
            (\<exists>r. tunnel_uri valid enc fs url (Some f) = Some (Inr r)
               \<and> urlparse valid r = Inr (c\<lparr>query := ''t=secret123''\<rparr>))"
    by (intro allI impI, elim conjE) (rule parsed)
  have c5: "\<forall>fs' chunk' later' line t rest' d2.
            fs' f = Inr (Inr chunk' # later') \<and> chunk' \<noteq> []
            \<and> decode enc (initial enc) chunk' False = Inr (line @ t # rest', d2)
            \<and> CR \<notin> set line \<and> LF \<notin> set line \<and> (t = LF \<or> t = CR \<and> rest' \<noteq> []) \<longrightarrow>
            get_passwd_from_file enc fs' f = Some (Inr line)"
    by (intro allI impI, elim conjE) (rule first)
  have c6: "\<forall>fs' e. fs' f = Inl e \<longrightarrow>
            get_passwd_from_file enc fs' f = Some (Inl e)
            \<and> tunnel_uri valid enc fs' url (Some f) = Some (Inl e)"
  proof (intro allI impI)
    fix fs' :: "string \<Rightarrow> exn + open_file" and e
    assume "fs' f = Inl e"
    then have "get_passwd_from_file enc fs' f = Some (Inl e)" by (rule no_file)
    then show "get_passwd_from_file enc fs' f = Some (Inl e)
        \<and> tunnel_uri valid enc fs' url (Some f) = Some (Inl e)"
      using raised by (simp only: simp_thms)
  qed
  have c7: "\<forall>fs' later' e. fs' f = Inr (Inl e # later') \<longrightarrow>
            get_passwd_from_file enc fs' f = Some (Inl e)
            \<and> tunnel_uri valid enc fs' url (Some f) = Some (Inl e)"
  proof (intro allI impI)
    fix fs' :: "string \<Rightarrow> exn + open_file" and later' e
    assume "fs' f = Inr (Inl e # later')"
    then have "get_passwd_from_file enc fs' f = Some (Inl e)" by (rule bad_read)
    then show "get_passwd_from_file enc fs' f = Some (Inl e)
        \<and> tunnel_uri valid enc fs' url (Some f) = Some (Inl e)"
      using raised by (simp only: simp_thms)
  qed
  have c8: "\<forall>fs' chunk' later' e.
            fs' f = Inr (Inr chunk' # later')
            \<and> decode enc (initial enc) chunk' (chunk' = []) = Inl e \<longrightarrow>
            get_passwd_from_file enc fs' f = Some (Inl e)
            \<and> tunnel_uri valid enc fs' url (Some f) = Some (Inl e)"
  proof (intro allI impI, elim conjE)
    fix fs' :: "string \<Rightarrow> exn + open_file" and chunk' later' e
    assume "fs' f = Inr (Inr chunk' # later')" "decode enc (initial enc) chunk' (chunk' = []) = Inl e"
    then have "get_passwd_from_file enc fs' f = Some (Inl e)" by (rule bad_bytes)
    then show "get_passwd_from_file enc fs' f = Some (Inl e)
        \<and> tunnel_uri valid enc fs' url (Some f) = Some (Inl e)"
      using raised by (simp only: simp_thms)
  qed
  have c9: "\<forall>fs' passwd. get_passwd_from_file enc fs' f = Some (Inr passwd) \<longrightarrow>
            CR \<notin> set passwd \<and> LF \<notin> set passwd
            \<and> CR \<notin> set (urlencode_t passwd) \<and> LF \<notin> set (urlencode_t passwd)"
    by (intro allI impI) (rule nocrlf)
  show ?thesis by (intro conjI; fact pw enc c3 c4 c5 c6 c7 c8 c9)
qed

theorem password_file_secret123_gives_query_t_secret123_witness:
  "''/etc/wstunnel.pw'' \<noteq> []
   \<and> decode ascii (initial ascii) (''secret123'' @ LF # ''second line'' @ [LF]) False
       = Inr (''secret123'' @ LF # ''second line'' @ [LF], ())
   \<and> get_passwd_from_file ascii
        (\<lambda>p. if p = ''/etc/wstunnel.pw''
              then Inr [Inr (''secret123'' @ LF # ''second line'' @ [LF])]
              else Inl FileNotFoundError)
        ''/etc/wstunnel.pw'' = Some (Inr ''secret123'')
   \<and> urlparse accept_all ''wss://example.com/tunnel''
       = Inr \<lparr>scheme = ''wss'', netloc = ''example.com'', path = ''/tunnel'', params = [],
              query = [], fragment = []\<rparr>
   \<and> tunnel_uri accept_all ascii
        (\<lambda>p. if p = ''/etc/wstunnel.pw''
              then Inr [Inr (''secret123'' @ LF # ''second line'' @ [LF])]
              else Inl FileNotFoundError)
        ''wss://example.com/tunnel'' (Some ''/etc/wstunnel.pw'')
       = Some (Inr ''wss://example.com/tunnel?t=secret123'')
   \<and> get_passwd_from_file ascii
        (\<lambda>p. if p = ''/etc/wstunnel.pw'' then Inr [Inr (''secret123'' @ [CR, LF])]
              else Inl FileNotFoundError)
        ''/etc/wstunnel.pw'' = Some (Inr ''secret123'')
   \<and> get_passwd_from_file ascii
        (\<lambda>p. if p = ''/etc/wstunnel.pw''
              then Inr [Inr (''secret123'' @ LF # ''second line'' @ [LF])]
              else Inl FileNotFoundError)
        ''/etc/missing'' = Some (Inl FileNotFoundError)"
proof -
  let ?bytes = "''secret123'' @ LF # ''second line'' @ [LF]"
  let ?fs = "\<lambda>p. if p = ''/etc/wstunnel.pw'' then Inr [Inr ?bytes]
      else Inl FileNotFoundError :: exn + open_file"
  let ?fs2 = "\<lambda>p. if p = ''/etc/wstunnel.pw'' then Inr [Inr (''secret123'' @ [CR, LF])]
      else Inl FileNotFoundError :: exn + open_file"
  let ?fs3 = "\<lambda>p. if p = ''/etc/missing'' then Inl FileNotFoundError
      else Inr [Inr ?bytes] :: exn + open_file"
  have a: "?fs ''/etc/wstunnel.pw'' = Inr (Inr ?bytes # [])" by simp
  have b: "''/etc/wstunnel.pw'' \<noteq> []" by simp
  have n: "?bytes \<noteq> []" by simp
  have d: "decode ascii (initial ascii) ?bytes False = Inr (''secret123'' @ LF # ''second line'' @ [LF], ())"
    by (simp add: ascii_def ord_def LF_def)
  have c: "urlparse accept_all ''wss://example.com/tunnel''
       = Inr \<lparr>scheme = ''wss'', netloc = ''example.com'', path = ''/tunnel'', params = [],
              query = [], fragment = []\<rparr>"
    by code_simp
  have u: "urlunparse \<lparr>scheme = ''wss'', netloc = ''example.com'', path = ''/tunnel'', params = [],
              query = ''t=secret123'', fragment = []\<rparr> = ''wss://example.com/tunnel?t=secret123''"
    by code_simp
  note t = password_file_secret123_gives_query_t_secret123
      [where fs = ?fs and f = "''/etc/wstunnel.pw''" and chunk = ?bytes and later = "[]"
         and enc = ascii and rest = "''second line'' @ [LF]" and ?d1.0 = "()"
         and valid = accept_all and url = "''wss://example.com/tunnel''", OF a b n d]
  from t have pw: "get_passwd_from_file ascii ?fs ''/etc/wstunnel.pw'' = Some (Inr ''secret123'')"
    by blast
  have "tunnel_uri accept_all ascii ?fs ''wss://example.com/tunnel'' (Some ''/etc/wstunnel.pw'')
      = Some (update_url_with_passwd accept_all ''wss://example.com/tunnel'' ''secret123'')"
    unfolding tunnel_uri_def by (simp only: option.case b if_False pw sum.case)
  also have "\<dots> = Some (Inr ''wss://example.com/tunnel?t=secret123'')"
    unfolding update_url_with_passwd_def by (simp only: c sum.case) (simp add: urlencode_secret123 u)
  finally have tun: "tunnel_uri accept_all ascii ?fs ''wss://example.com/tunnel''
      (Some ''/etc/wstunnel.pw'') = Some (Inr ''wss://example.com/tunnel?t=secret123'')" .
  have a2: "?fs2 ''/etc/wstunnel.pw'' = Inr (Inr (''secret123'' @ [CR, LF]) # [])" by simp
  have d2: "decode ascii (initial ascii) (''secret123'' @ [CR, LF]) False
      = Inr (''secret123'' @ CR # [LF], ())"
    by (simp add: ascii_def ord_def LF_def CR_def)
  have s: "CR \<notin> set ''secret123''" "LF \<notin> set ''secret123''" by (simp_all add: CR_def LF_def)
  from t have "\<forall>fs' chunk' later' line t rest' d2.
            fs' ''/etc/wstunnel.pw'' = Inr (Inr chunk' # later') \<and> chunk' \<noteq> []
            \<and> decode ascii (initial ascii) chunk' False = Inr (line @ t # rest', d2)
            \<and> CR \<notin> set line \<and> LF \<notin> set line \<and> (t = LF \<or> t = CR \<and> rest' \<noteq> []) \<longrightarrow>
            get_passwd_from_file ascii fs' ''/etc/wstunnel.pw'' = Some (Inr line)"
    by blast
  from this [rule_format, of ?fs2 "''secret123'' @ [CR, LF]" "[]" "''secret123''" CR "[LF]" "()"]
    a2 d2 s
  have crlf: "get_passwd_from_file ascii ?fs2 ''/etc/wstunnel.pw'' = Some (Inr ''secret123'')"
    by simp
  have missing: "get_passwd_from_file ascii ?fs ''/etc/missing'' = Some (Inl FileNotFoundError)"
    by (simp add: get_passwd_from_file_def)
  show ?thesis using b d pw c tun crlf missing by (simp only: simp_thms)
qed

text \<open>
  Claim C8 says that the query parameters already present in the URL are preserved.
  The URL below has the query \<^verbatim>\<open>a=1&b=2\<close>; in the result the query is
  \<^verbatim>\<open>t=pw\<close> alone.
\<close>

theorem existing_query_parameters_are_dropped:
  "urlparse accept_all ''ws://example.com:8080/tunnel?a=1&b=2#top''
     = Inr \<lparr>scheme = ''ws'', netloc = ''example.com:8080'', path = ''/tunnel'', params = [],
            query = ''a=1&b=2'', fragment = ''top''\<rparr>
   \<and> update_url_with_passwd accept_all ''ws://example.com:8080/tunnel?a=1&b=2#top'' ''pw''
     = Inr ''ws://example.com:8080/tunnel?t=pw#top''
   \<and> urlparse accept_all ''ws://example.com:8080/tunnel?t=pw#top''
     = Inr \<lparr>scheme = ''ws'', netloc = ''example.com:8080'', path = ''/tunnel'', params = [],
            query = ''t=pw'', fragment = ''top''\<rparr>"
  by code_simp

text \<open>
  Claim C8, as the code has it. For every URL that \<^verbatim>\<open>urlparse\<close> accepts and
  that has a network location, and for every password, the result is the URL written
  back from its components with the query replaced, and it parses to the same scheme,
  network location, path, params and fragment as the URL, with the query
  \<^verbatim>\<open>t=\<close> followed by the encoded password: the query the URL had is replaced.
\<close>

theorem update_url_replaces_query_keeps_other_components:
  assumes "urlparse valid url = Inr c" and "netloc c \<noteq> []"
  shows "update_url_with_passwd valid url passwd = Inr (urlunparse (c\<lparr>query := ''t='' @ quote_plus passwd\<rparr>))
       \<and> urlparse valid (urlunparse (c\<lparr>query := ''t='' @ quote_plus passwd\<rparr>))
           = Inr \<lparr>scheme = scheme c, netloc = netloc c, path = path c, params = params c,
                  query = ''t='' @ quote_plus passwd, fragment = fragment c\<rparr>"
proof -
  have "urlparse valid (urlunparse (c\<lparr>query := urlencode_t passwd\<rparr>)) = Inr (c\<lparr>query := urlencode_t passwd\<rparr>)"
    using assms urlencode_t_props(1,2,3) by (rule urlparse_urlunparse)
  moreover have "c\<lparr>query := urlencode_t passwd\<rparr> = \<lparr>scheme = scheme c, netloc = netloc c,
      path = path c, params = params c, query = urlencode_t passwd, fragment = fragment c\<rparr>"
    by simp
  ultimately show ?thesis
    unfolding update_url_with_passwd_def by (simp add: assms(1) urlencode_t_def)
qed

theorem update_url_replaces_query_keeps_other_components_witness:
  "urlparse accept_all ''wss://tunnel.example.org/ws?user=bob#top''
     = Inr \<lparr>scheme = ''wss'', netloc = ''tunnel.example.org'', path = ''/ws'', params = [],
            query = ''user=bob'', fragment = ''top''\<rparr>
   \<and> ''tunnel.example.org'' \<noteq> []
   \<and> update_url_with_passwd accept_all ''wss://tunnel.example.org/ws?user=bob#top'' ''p w''
     = Inr ''wss://tunnel.example.org/ws?t=p+w#top''
   \<and> urlparse accept_all ''wss://tunnel.example.org/ws?t=p+w#top''
     = Inr \<lparr>scheme = ''wss'', netloc = ''tunnel.example.org'', path = ''/ws'', params = [],
            query = ''t=p+w'', fragment = ''top''\<rparr>"
proof -
  let ?c = "\<lparr>scheme = ''wss'', netloc = ''tunnel.example.org'', path = ''/ws'', params = [],
            query = ''user=bob'', fragment = ''top''\<rparr>"
  have a: "urlparse accept_all ''wss://tunnel.example.org/ws?user=bob#top'' = Inr ?c" by code_simp
  have b: "netloc ?c \<noteq> []" by simp
  have q: "''t='' @ quote_plus ''p w'' = ''t=p+w''" by code_simp
  have u: "urlunparse (?c\<lparr>query := ''t=p+w''\<rparr>) = ''wss://tunnel.example.org/ws?t=p+w#top''"
    by code_simp
  show ?thesis
    using update_url_replaces_query_keeps_other_components [OF a b, of "''p w''"] a
    unfolding q u by simp
qed

end
